theory Spec2Isabelle
  imports Main "HOL-Library.Word"
begin

unbundle bit_operations_syntax

section \<open>Bytes, errors and outcomes\<close>

type_synonym byte = "8 word"
type_synonym bytes = "byte list"

text \<open>
  The JavaScript \<open>Error\<close> objects the client creates or passes on. Each constructor
  keeps the data the source interpolates into the message.
  \<^item> \<open>FrameTooLarge frameLen max\<close>: \<open>new Error(`Frame too large: ${frameLen} > ${max}`)\<close>
  \<^item> \<open>Backpressure n\<close>: \<open>new Error(`Pipeline backpressure: ${n} pending requests`)\<close>
  \<^item> \<open>PipelineDestroyed\<close>: \<open>new Error('Pipeline destroyed')\<close>
  \<^item> \<open>ConnectionClosed\<close>: \<open>new Error('Connection closed')\<close>
  \<^item> \<open>RequestTimeout t\<close>: \<open>new Error(`Request timeout after ${t}ms`)\<close>
  \<^item> \<open>MindFryError code message\<close>: the class of that name, with its \<open>code\<close> field and
    the message handed to \<open>super\<close>
  \<^item> \<open>TransportError s\<close>: an error object produced by the socket (write failure or
    \<open>'error'\<close> event)
  \<^item> \<open>RangeError\<close>: thrown by \<open>DataView\<close> on a read outside the view
\<close>

datatype js_error =
    FrameTooLarge nat nat
  | Backpressure nat
  | PipelineDestroyed
  | ConnectionClosed
  | RequestTimeout int
  | MindFryError byte string
  | TransportError string
  | RangeError

text \<open>
  A call either returns with the new state or throws, leaving the state as it was at
  the \<open>throw\<close>.
\<close>

datatype 's outcome = Returned 's | Thrown js_error 's

section \<open>Frame decoder (framer.ts)\<close>

record FrameDecoder =
  buffer :: bytes
  maxFrameSize :: nat

text \<open>The constructor: \<open>Buffer.alloc(0)\<close> and the given limit (default 16 MiB).\<close>

definition new_FrameDecoder :: "nat \<Rightarrow> FrameDecoder" where
  "new_FrameDecoder m = \<lparr>buffer = [], maxFrameSize = m\<rparr>"

text \<open>
  \<open>Buffer.readUInt32LE(0)\<close>. The decoder calls it only under the loop guard
  \<open>buffer.length >= 4\<close>, so the four reads are in range.
\<close>

definition readUInt32LE :: "bytes \<Rightarrow> nat" where
  "readUInt32LE buf =
     unat (buf ! 0) + unat (buf ! 1) * 2 ^ 8 + unat (buf ! 2) * 2 ^ 16 + unat (buf ! 3) * 2 ^ 24"

text \<open>
  The \<open>while\<close> loop of \<open>FrameDecoder.push\<close>, after the chunk has been appended.
  \<open>emit('frame', _)\<close> and \<open>emit('error', _)\<close> call the registered listeners
  synchronously; they are the parameters \<open>emitFrame\<close> and \<open>emitError\<close>, acting on the
  listeners' own state \<open>s\<close>. When a listener throws, the exception leaves \<open>push\<close> before
  the assignment to \<open>this.buffer\<close> that would follow, so the buffer stays as it was.
\<close>

function push_loop ::
  "(bytes \<Rightarrow> 's \<Rightarrow> 's outcome) \<Rightarrow> (js_error \<Rightarrow> 's \<Rightarrow> 's outcome) \<Rightarrow> nat \<Rightarrow>
   bytes \<Rightarrow> 's \<Rightarrow> (bytes \<times> 's) outcome"
where
  "push_loop emitFrame emitError maxFS buf s =
     (if 4 \<le> length buf then
        (let frameLen = readUInt32LE buf in
         if maxFS < frameLen then
           (case emitError (FrameTooLarge frameLen maxFS) s of
              Thrown e s' \<Rightarrow> Thrown e (buf, s')
            | Returned s' \<Rightarrow> Returned ([], s'))
         else if length buf < 4 + frameLen then Returned (buf, s)
         else
           (case emitFrame (take frameLen (drop 4 buf)) s of
              Thrown e s' \<Rightarrow> Thrown e (buf, s')
            | Returned s' \<Rightarrow>
                push_loop emitFrame emitError maxFS (drop (4 + frameLen) buf) s'))
      else Returned (buf, s))"
  by pat_completeness auto
termination
  by (relation "measure (\<lambda>(emitFrame, emitError, maxFS, buf, s). length buf)") auto

declare push_loop.simps [simp del]

text \<open>\<open>FrameDecoder.push\<close>: append the chunk, then run the loop.\<close>

definition push ::
  "(bytes \<Rightarrow> 's \<Rightarrow> 's outcome) \<Rightarrow> (js_error \<Rightarrow> 's \<Rightarrow> 's outcome) \<Rightarrow>
   bytes \<Rightarrow> FrameDecoder \<times> 's \<Rightarrow> (FrameDecoder \<times> 's) outcome"
where
  "push emitFrame emitError chunk ds =
     (case ds of (d, s) \<Rightarrow>
        (case push_loop emitFrame emitError (maxFrameSize d) (buffer d @ chunk) s of
           Returned (buf', s') \<Rightarrow> Returned (d\<lparr>buffer := buf'\<rparr>, s')
         | Thrown e (buf', s') \<Rightarrow> Thrown e (d\<lparr>buffer := buf'\<rparr>, s')))"

definition pendingBytes :: "FrameDecoder \<Rightarrow> nat" where
  "pendingBytes d = length (buffer d)"

definition reset :: "FrameDecoder \<Rightarrow> FrameDecoder" where
  "reset d = d\<lparr>buffer := []\<rparr>"

text \<open>
  Listeners that record what they are called with, as the mock handlers of the
  decoder's test-suite do. The listeners' state is the list of events seen so far.
\<close>

datatype decoder_event = FrameEvent bytes | ErrorEvent js_error

definition record_frame :: "bytes \<Rightarrow> decoder_event list \<Rightarrow> decoder_event list outcome" where
  "record_frame payload log = Returned (log @ [FrameEvent payload])"

definition record_error :: "js_error \<Rightarrow> decoder_event list \<Rightarrow> decoder_event list outcome" where
  "record_error e log = Returned (log @ [ErrorEvent e])"

definition push_recorded ::
  "bytes \<Rightarrow> FrameDecoder \<times> decoder_event list \<Rightarrow> (FrameDecoder \<times> decoder_event list) outcome"
where
  "push_recorded = push record_frame record_error"

text \<open>Pushing a sequence of chunks in order; a throw ends the sequence.\<close>

fun push_all ::
  "bytes list \<Rightarrow> FrameDecoder \<times> decoder_event list \<Rightarrow> (FrameDecoder \<times> decoder_event list) outcome"
where
  "push_all [] ds = Returned ds"
| "push_all (c # cs) ds =
     (case push_recorded c ds of
        Returned ds' \<Rightarrow> push_all cs ds'
      | Thrown e ds' \<Rightarrow> Thrown e ds')"

subsection \<open>The wire format of a frame\<close>

text \<open>
  \<open>DataView.setUint32(0, n, true)\<close>: the four bytes of \<open>n\<close> modulo \<open>2 ^ 32\<close>, least
  significant first.
\<close>

definition setUint32LE :: "nat \<Rightarrow> bytes" where
  "setUint32LE n =
     [word_of_nat n, word_of_nat (n div 2 ^ 8), word_of_nat (n div 2 ^ 16),
      word_of_nat (n div 2 ^ 24)]"

text \<open>
  A frame on the wire: the length of the payload as a \<open>u32\<close>, little-endian, then the
  payload.
\<close>

definition frame_bytes :: "bytes \<Rightarrow> bytes" where
  "frame_bytes payload = setUint32LE (length payload) @ payload"

text \<open>\<open>encodeFrame\<close> of frames.ts: the payload of the frame is the opcode and the body.\<close>

definition encodeFrame :: "byte \<Rightarrow> bytes \<Rightarrow> bytes" where
  "encodeFrame opc payload =
     setUint32LE (1 + length payload) @ [opc] @ payload"

section \<open>Protocol constants and payload reading (opcodes.ts, errors.ts, frames.ts)\<close>

definition RESPONSE_ERROR :: byte where
  "RESPONSE_ERROR = 0xf1"

text \<open>
  \<open>ErrorCode[code]\<close>, the reverse mapping of the numeric enum. For a number that is no
  member it is \<open>undefined\<close>, which the template literal of \<open>MindFryError\<close> prints
  as the text \<open>undefined\<close>.
\<close>

definition ErrorCode_name :: "byte \<Rightarrow> string" where
  "ErrorCode_name c =
     (if c = 0x00 then ''UNKNOWN''
      else if c = 0x01 then ''INVALID_OPCODE''
      else if c = 0x02 then ''MALFORMED_PAYLOAD''
      else if c = 0x10 then ''LINEAGE_NOT_FOUND''
      else if c = 0x11 then ''LINEAGE_EXISTS''
      else if c = 0x20 then ''BOND_NOT_FOUND''
      else if c = 0x21 then ''BOND_EXISTS''
      else if c = 0x30 then ''SNAPSHOT_NOT_FOUND''
      else if c = 0xff then ''INTERNAL''
      else ''undefined'')"

text \<open>
  \<open>new MindFryError(code, message)\<close>: the \<open>code\<close> field, and the text
  \<open>`[${ErrorCode[code]}] ${message}`\<close> as the message of the \<open>Error\<close>.
\<close>

definition new_MindFryError :: "byte \<Rightarrow> string \<Rightarrow> js_error" where
  "new_MindFryError code message =
     MindFryError code (''['' @ ErrorCode_name code @ ''] '' @ message)"

text \<open>
  \<open>PayloadReader.readU8\<close> at a given offset of the reader's data: the byte and the new
  offset. \<open>DataView.getUint8\<close> throws a \<open>RangeError\<close> outside the view.
\<close>

definition readU8 :: "bytes \<Rightarrow> nat \<Rightarrow> js_error + (byte \<times> nat)" where
  "readU8 data offset =
     (if offset < length data then Inr (data ! offset, offset + 1) else Inl RangeError)"

text \<open>
  \<open>decodeString(data, offset)\<close>: a \<open>DataView\<close> from \<open>offset\<close> on (a \<open>RangeError\<close>
  when the offset is beyond the data), \<open>getUint16(0, true)\<close> (a \<open>RangeError\<close> when
  fewer than two bytes are left), then \<open>data.slice\<close>, which clamps to the end of the
  data, and \<open>TextDecoder.decode\<close>. The platform's UTF-8 decoder is the parameter
  \<open>utf8\<close>. The result is the text and the number of bytes consumed.
\<close>

definition decodeString :: "(bytes \<Rightarrow> string) \<Rightarrow> bytes \<Rightarrow> nat \<Rightarrow> js_error + (string \<times> nat)" where
  "decodeString utf8 data offset =
     (if length data < offset + 2 then Inl RangeError
      else
        (let len = unat (data ! offset) + unat (data ! (offset + 1)) * 2 ^ 8
         in Inr (utf8 (take len (drop (offset + 2) data)), 2 + len)))"

text \<open>\<open>PayloadReader.readString\<close>: the text and the new offset.\<close>

definition readString :: "(bytes \<Rightarrow> string) \<Rightarrow> bytes \<Rightarrow> nat \<Rightarrow> js_error + (string \<times> nat)" where
  "readString utf8 data offset =
     (case decodeString utf8 data offset of
        Inl e \<Rightarrow> Inl e
      | Inr (str, consumed) \<Rightarrow> Inr (str, offset + consumed))"

text \<open>\<open>DataView.setUint16(0, n, true)\<close>, as \<open>encodeString\<close> writes the length prefix.\<close>

definition setUint16LE :: "nat \<Rightarrow> bytes" where
  "setUint16LE n = [word_of_nat n, word_of_nat (n div 2 ^ 8)]"

section \<open>Request pipeline (pipeline.ts)\<close>

subsection \<open>JavaScript values the pipeline relies on\<close>

text \<open>
  The bitwise \<open>&\<close> of JavaScript converts both operands to 32-bit integers and gives
  a signed 32-bit result.
\<close>

definition js_bitand :: "int \<Rightarrow> int \<Rightarrow> int" where
  "js_bitand a b = sint ((word_of_int a :: 32 word) AND word_of_int b)"

text \<open>
  A JavaScript \<open>Map\<close> keeps its entries in insertion order: an association list.
  \<open>set\<close> on a key already present replaces the value in place; \<open>delete\<close> removes the
  entry of the key.
\<close>

definition Map_set :: "'k \<Rightarrow> 'v \<Rightarrow> ('k \<times> 'v) list \<Rightarrow> ('k \<times> 'v) list" where
  "Map_set k v m =
     (if k \<in> fst ` set m then map (\<lambda>(k', v'). if k' = k then (k', v) else (k', v')) m
      else m @ [(k, v)])"

definition Map_delete :: "'k \<Rightarrow> ('k \<times> 'v) list \<Rightarrow> ('k \<times> 'v) list" where
  "Map_delete k m = filter (\<lambda>(k', v'). k' \<noteq> k) m"

subsection \<open>State\<close>

text \<open>
  A pending entry holds the \<open>resolve\<close> and \<open>reject\<close> functions of the promise that
  \<open>send\<close> returned: the field \<open>promise\<close> identifies that promise.
\<close>

record PendingRequest =
  promise :: nat
  opcode :: byte
  timestamp :: int

record PipelineConfig =
  timeout :: int
  maxPending :: nat
  config_maxFrameSize :: nat

definition DEFAULT_CONFIG :: PipelineConfig where
  "DEFAULT_CONFIG =
     \<lparr>timeout = 30000, maxPending = 1000, config_maxFrameSize = 16 * 1024 * 1024\<rparr>"

text \<open>An invocation of a continuation: \<open>resolve(payload)\<close> or \<open>reject(error)\<close>.\<close>

datatype settlement = Resolve bytes | Reject js_error

text \<open>
  The fields of \<open>RequestPipeline\<close>, and what it does to its surroundings:
  \<^item> \<open>decoder_listeners\<close>: whether the listeners that the constructor registers on the
    decoder are still there (\<open>destroy\<close> removes them);
  \<^item> \<open>timeoutChecker\<close>: whether the interval timer is set;
  \<^item> \<open>written\<close>: the frames handed to \<open>socket.write\<close>, in order;
  \<^item> \<open>write_callbacks\<close>: the callbacks given to \<open>socket.write\<close> that the socket has not
    called yet, each with the \<open>seqId\<close> and the promise its closure captured;
  \<^item> \<open>invocations\<close>: every call of a continuation, in order, with the promise it belongs to;
  \<^item> \<open>warnings\<close>: the lines given to \<open>console.warn\<close>;
  \<^item> \<open>promises\<close>: the number of promises \<open>send\<close> has created.
\<close>

record RequestPipeline =
  sequenceId :: int
  pending :: "(int \<times> PendingRequest) list"
  decoder :: FrameDecoder
  decoder_listeners :: bool
  config :: PipelineConfig
  timeoutChecker :: bool
  written :: "bytes list"
  write_callbacks :: "(int \<times> nat) list"
  invocations :: "(nat \<times> settlement) list"
  warnings :: "string list"
  promises :: nat

text \<open>
  The constructor: the configuration (defaults overridden by the caller), a decoder
  with the configured limit, the socket and decoder listeners, the interval timer.
\<close>

definition new_RequestPipeline :: "PipelineConfig \<Rightarrow> RequestPipeline" where
  "new_RequestPipeline cfg =
     \<lparr>sequenceId = 0, pending = [], decoder = new_FrameDecoder (config_maxFrameSize cfg),
      decoder_listeners = True, config = cfg, timeoutChecker = True, written = [],
      write_callbacks = [], invocations = [], warnings = [], promises = 0\<rparr>"

subsection \<open>Operations\<close>

text \<open>\<open>nextSequenceId\<close>: \<open>(this.sequenceId + 1) & 0xffffffff\<close>.\<close>

definition nextSequenceId :: "int \<Rightarrow> int" where
  "nextSequenceId s = js_bitand (s + 1) 0xffffffff"

text \<open>
  \<open>send(frame, opcode)\<close> at time \<open>now\<close> (\<open>Date.now()\<close>): the promise it returns and the
  new state.
\<close>

definition send :: "bytes \<Rightarrow> byte \<Rightarrow> int \<Rightarrow> RequestPipeline \<Rightarrow> nat \<times> RequestPipeline" where
  "send frame opc now p =
     (let pr = promises p; p0 = p\<lparr>promises := pr + 1\<rparr> in
      if maxPending (config p0) \<le> length (pending p0) then
        (pr, p0\<lparr>invocations :=
                   invocations p0 @ [(pr, Reject (Backpressure (length (pending p0))))]\<rparr>)
      else
        (let seqId = nextSequenceId (sequenceId p0) in
         (pr, p0\<lparr>sequenceId := seqId,
                 pending := Map_set seqId \<lparr>promise = pr, opcode = opc, timestamp = now\<rparr> (pending p0),
                 written := written p0 @ [frame],
                 write_callbacks := write_callbacks p0 @ [(seqId, pr)]\<rparr>)))"

text \<open>The callback of \<open>socket.write\<close>, called by the socket with or without an error.\<close>

definition write_callback :: "js_error option \<Rightarrow> int \<times> nat \<Rightarrow> RequestPipeline \<Rightarrow> RequestPipeline" where
  "write_callback err cb p =
     (case err of
        None \<Rightarrow> p
      | Some e \<Rightarrow>
          (case cb of (seqId, pr) \<Rightarrow>
             p\<lparr>pending := Map_delete seqId (pending p),
               invocations := invocations p @ [(pr, Reject e)]\<rparr>))"

text \<open>
  \<open>handleFrame(payload)\<close>. The reader of the error body works on a copy of the bytes
  after the opcode; a read beyond them throws, after the entry has been deleted.
\<close>

definition handleFrame :: "(bytes \<Rightarrow> string) \<Rightarrow> bytes \<Rightarrow> RequestPipeline \<Rightarrow> RequestPipeline outcome" where
  "handleFrame utf8 payload p =
     (if length payload < 1 then
        Returned (p\<lparr>warnings := warnings p @ [''Received empty frame'']\<rparr>)
      else
        (let opc = payload ! 0; data = drop 1 payload in
         case pending p of
           [] \<Rightarrow>
             Returned (p\<lparr>warnings := warnings p @ [''Received response with no pending request'']\<rparr>)
         | (seqId, request) # _ \<Rightarrow>
             (let p1 = p\<lparr>pending := Map_delete seqId (pending p)\<rparr> in
              if opc = RESPONSE_ERROR then
                (case readU8 data 0 of
                   Inl e \<Rightarrow> Thrown e p1
                 | Inr (errorCode, off) \<Rightarrow>
                     (case readString utf8 data off of
                        Inl e \<Rightarrow> Thrown e p1
                      | Inr (message, off') \<Rightarrow>
                          Returned (p1\<lparr>invocations := invocations p1 @
                             [(promise request, Reject (new_MindFryError errorCode message))]\<rparr>)))
              else
                Returned (p1\<lparr>invocations := invocations p1 @
                             [(promise request, Resolve data)]\<rparr>))))"

text \<open>
  \<open>rejectAllPending(error)\<close>: the \<open>for ... of\<close> loop over the entries of the map, each
  rejected and deleted in turn.
\<close>

fun rejectAll_loop :: "js_error \<Rightarrow> (int \<times> PendingRequest) list \<Rightarrow> RequestPipeline \<Rightarrow> RequestPipeline" where
  "rejectAll_loop e [] p = p"
| "rejectAll_loop e ((seqId, req) # entries) p =
     rejectAll_loop e entries
       (p\<lparr>invocations := invocations p @ [(promise req, Reject e)],
          pending := Map_delete seqId (pending p)\<rparr>)"

definition rejectAllPending :: "js_error \<Rightarrow> RequestPipeline \<Rightarrow> RequestPipeline" where
  "rejectAllPending e p = rejectAll_loop e (pending p) p"

text \<open>The body of the interval timer, run at time \<open>now\<close>.\<close>

fun sweep_loop :: "int \<Rightarrow> (int \<times> PendingRequest) list \<Rightarrow> RequestPipeline \<Rightarrow> RequestPipeline" where
  "sweep_loop now [] p = p"
| "sweep_loop now ((seqId, req) # entries) p =
     sweep_loop now entries
       (if timeout (config p) < now - timestamp req then
          p\<lparr>invocations := invocations p @ [(promise req, Reject (RequestTimeout (timeout (config p))))],
            pending := Map_delete seqId (pending p)\<rparr>
        else p)"

definition timeout_check :: "int \<Rightarrow> RequestPipeline \<Rightarrow> RequestPipeline" where
  "timeout_check now p = sweep_loop now (pending p) p"

text \<open>\<open>destroy()\<close>.\<close>

definition destroy :: "RequestPipeline \<Rightarrow> RequestPipeline" where
  "destroy p =
     (let p1 = (if timeoutChecker p then p\<lparr>timeoutChecker := False\<rparr> else p);
          p2 = p1\<lparr>decoder_listeners := False, decoder := reset (decoder p1)\<rparr>
      in rejectAll_loop PipelineDestroyed (pending p2) p2)"

text \<open>
  The listeners of \<open>setupSocketHandlers\<close>. An \<open>EventEmitter\<close> without a listener drops a
  \<open>'frame'\<close> event and throws the error of an \<open>'error'\<close> event.
\<close>

definition decoder_on_frame :: "(bytes \<Rightarrow> string) \<Rightarrow> bytes \<Rightarrow> RequestPipeline \<Rightarrow> RequestPipeline outcome" where
  "decoder_on_frame utf8 payload p =
     (if decoder_listeners p then handleFrame utf8 payload p else Returned p)"

definition decoder_on_error :: "js_error \<Rightarrow> RequestPipeline \<Rightarrow> RequestPipeline outcome" where
  "decoder_on_error e p =
     (if decoder_listeners p then Returned (rejectAllPending e p) else Thrown e p)"

text \<open>
  The socket's \<open>'data'\<close> listener: \<open>this.decoder.push(chunk)\<close>. The listeners do not
  touch the decoder, whose new buffer is stored when \<open>push\<close> is left.
\<close>

definition socket_data :: "(bytes \<Rightarrow> string) \<Rightarrow> bytes \<Rightarrow> RequestPipeline \<Rightarrow> RequestPipeline outcome" where
  "socket_data utf8 chunk p =
     (case push (decoder_on_frame utf8) decoder_on_error chunk (decoder p, p) of
        Returned (d', p') \<Rightarrow> Returned (p'\<lparr>decoder := d'\<rparr>)
      | Thrown e (d', p') \<Rightarrow> Thrown e (p'\<lparr>decoder := d'\<rparr>))"

definition socket_error :: "js_error \<Rightarrow> RequestPipeline \<Rightarrow> RequestPipeline" where
  "socket_error e p = rejectAllPending e p"

definition socket_close :: "RequestPipeline \<Rightarrow> RequestPipeline" where
  "socket_close p = rejectAllPending ConnectionClosed p"

text \<open>A sequence of frame events delivered to \<open>handleFrame\<close>; a throw ends it.\<close>

fun handleFrames :: "(bytes \<Rightarrow> string) \<Rightarrow> bytes list \<Rightarrow> RequestPipeline \<Rightarrow> RequestPipeline outcome" where
  "handleFrames utf8 [] p = Returned p"
| "handleFrames utf8 (f # fs) p =
     (case handleFrame utf8 f p of
        Returned p' \<Rightarrow> handleFrames utf8 fs p'
      | Thrown e p' \<Rightarrow> Thrown e p')"

text \<open>A sequence of \<open>send\<close> calls, each with its frame, opcode and time.\<close>

fun sends :: "(bytes \<times> byte \<times> int) list \<Rightarrow> RequestPipeline \<Rightarrow> RequestPipeline" where
  "sends [] p = p"
| "sends ((frame, opc, now) # reqs) p = sends reqs (snd (send frame opc now p))"

text \<open>
  The platform's \<open>TextDecoder\<close> on bytes below 128: each byte is the character of the
  same code, as UTF-8 has it. It stands for the decoder in the examples, which use
  such bytes only.
\<close>

definition ascii_text :: "bytes \<Rightarrow> string" where
  "ascii_text bs = map (\<lambda>b. char_of (unat b)) bs"

subsection \<open>What a response frame means, in the words of the specification\<close>

text \<open>
  The first byte of a payload is the operation tag. A payload tagged as an error
  carries an error code and a message with a 16-bit length prefix, and fails the call
  with both; any other payload succeeds the call with the bytes after the tag.
\<close>

definition settlement_of :: "(bytes \<Rightarrow> string) \<Rightarrow> bytes \<Rightarrow> settlement" where
  "settlement_of utf8 f =
     (if hd f = RESPONSE_ERROR then
        Reject (MindFryError (f ! 1)
          (''['' @ ErrorCode_name (f ! 1) @ ''] '' @
             utf8 (take (unat (f ! 2) + unat (f ! 3) * 2 ^ 8) (drop 4 f))))
      else Resolve (tl f))"

text \<open>
  A payload that \<open>handleFrame\<close> can interpret: not empty, and long enough for the error
  code and the length prefix when it is tagged as an error.
\<close>

definition well_formed_response :: "bytes \<Rightarrow> bool" where
  "well_formed_response f \<longleftrightarrow> f \<noteq> [] \<and> (hd f = RESPONSE_ERROR \<longrightarrow> 4 \<le> length f)"

subsection \<open>Everything that can happen to a pipeline\<close>

text \<open>
  The calls of the owner (\<open>send\<close>, \<open>destroy\<close>) and of the runtime: the socket calling
  one of the write callbacks it still holds, with or without an error, the socket's
  \<open>'data'\<close>, \<open>'error'\<close> and \<open>'close'\<close> events, and the interval timer, which fires only
  while it is set. The runtime is single-threaded: the events come one after another.
\<close>

datatype event =
    Send bytes byte int
  | WriteDone nat "js_error option"
  | SocketData bytes
  | SocketError js_error
  | SocketClose
  | TimerTick int
  | Destroy

definition remove_nth :: "nat \<Rightarrow> 'a list \<Rightarrow> 'a list" where
  "remove_nth i xs = take i xs @ drop (Suc i) xs"

definition step :: "(bytes \<Rightarrow> string) \<Rightarrow> event \<Rightarrow> RequestPipeline \<Rightarrow> RequestPipeline outcome" where
  "step utf8 ev p =
     (case ev of
        Send frame opc now \<Rightarrow> Returned (snd (send frame opc now p))
      | WriteDone i err \<Rightarrow>
          (if i < length (write_callbacks p) then
             Returned (write_callback err (write_callbacks p ! i)
                         (p\<lparr>write_callbacks := remove_nth i (write_callbacks p)\<rparr>))
           else Returned p)
      | SocketData chunk \<Rightarrow> socket_data utf8 chunk p
      | SocketError e \<Rightarrow> Returned (socket_error e p)
      | SocketClose \<Rightarrow> Returned (socket_close p)
      | TimerTick now \<Rightarrow> Returned (if timeoutChecker p then timeout_check now p else p)
      | Destroy \<Rightarrow> Returned (destroy p))"

text \<open>A sequence of events; an uncaught exception ends it.\<close>

fun run :: "(bytes \<Rightarrow> string) \<Rightarrow> event list \<Rightarrow> RequestPipeline \<Rightarrow> RequestPipeline outcome" where
  "run utf8 [] p = Returned p"
| "run utf8 (ev # evs) p =
     (case step utf8 ev p of
        Returned p' \<Rightarrow> run utf8 evs p'
      | Thrown e p' \<Rightarrow> Thrown e p')"

text \<open>How often a continuation of a promise has been called.\<close>

definition invoked :: "nat \<Rightarrow> (nat \<times> settlement) list \<Rightarrow> nat" where
  "invoked pr calls = count_list (map fst calls) pr"

text \<open>The promises that have an entry in the pending map.\<close>

definition pending_promises :: "RequestPipeline \<Rightarrow> nat set" where
  "pending_promises p = (promise \<circ> snd) ` set (pending p)"

text \<open>The sequence number that the \<open>j\<close>-th call of \<open>nextSequenceId\<close> returns.\<close>

definition nth_sequenceId :: "nat \<Rightarrow> int" where
  "nth_sequenceId j = sint (word_of_nat j :: 32 word)"

text \<open>
  What holds of the sequence counter \<open>s\<close>, the pending map, the outstanding write
  callbacks \<open>w\<close>, the calls of continuations \<open>calls\<close> and the number \<open>n\<close> of promises in
  every state that is reached before a sequence number is used a second time.
\<close>

definition pipeline_inv ::
  "int \<Rightarrow> (int \<times> PendingRequest) list \<Rightarrow> (int \<times> nat) list \<Rightarrow> (nat \<times> settlement) list \<Rightarrow> nat \<Rightarrow> bool"
where
  "pipeline_inv s pend w calls n \<longleftrightarrow>
     (\<exists>m \<le> n. s = nth_sequenceId m \<and>
        (\<forall>k \<in> fst ` set pend \<union> fst ` set w. \<exists>j. 1 \<le> j \<and> j \<le> m \<and> k = nth_sequenceId j))
     \<and> distinct (map fst pend)
     \<and> distinct (map (promise \<circ> snd) pend)
     \<and> distinct (map snd w)
     \<and> (\<forall>x \<in> set pend. promise (snd x) < n \<and> invoked (promise (snd x)) calls = 0)
     \<and> (\<forall>c \<in> set w. snd c < n \<and> invoked (snd c) calls \<le> 1 \<and>
           (\<forall>x \<in> set pend. (fst x = fst c) = (promise (snd x) = snd c)))
     \<and> (\<forall>pr < n. pr \<notin> (promise \<circ> snd) ` set pend \<longrightarrow> 1 \<le> invoked pr calls \<and> invoked pr calls \<le> 2)
     \<and> (\<forall>pr \<in> fst ` set calls. pr < n)"

definition invariant :: "RequestPipeline \<Rightarrow> bool" where
  "invariant p =
     pipeline_inv (sequenceId p) (pending p) (write_callbacks p) (invocations p) (promises p)"

section \<open>Properties of the frame decoder\<close>

lemma length_setUint32LE [simp]: "length (setUint32LE n) = 4"
  by (simp add: setUint32LE_def)

lemma encodeFrame_frame_bytes: "encodeFrame opc payload = frame_bytes (opc # payload)"
  by (simp add: encodeFrame_def frame_bytes_def)

lemma le_bytes_decomposition:
  fixes n :: nat
  assumes "n < 2 ^ 32"
  shows "n mod 256 + (n div 256 mod 256) * 256 + (n div 65536 mod 256) * 65536
          + (n div 16777216 mod 256) * 16777216 = n"
proof -
  define q1 where "q1 = n div 256"
  define q2 where "q2 = q1 div 256"
  define q3 where "q3 = q2 div 256"
  define r0 where "r0 = n mod 256"
  define r1 where "r1 = q1 mod 256"
  define r2 where "r2 = q2 mod 256"
  have 1: "n = r0 + q1 * 256" unfolding q1_def r0_def by simp
  have 2: "q1 = r1 + q2 * 256" unfolding q2_def r1_def by simp
  have 3: "q2 = r2 + q3 * 256" unfolding q3_def r2_def by simp
  have b: "n div 65536 = q2" unfolding q2_def q1_def by (simp add: div_mult2_eq)
  have c: "n div 16777216 = q3" unfolding q3_def q2_def q1_def by (simp add: div_mult2_eq)
  have "q3 < 256" using assms c by simp
  then have d: "q3 mod 256 = q3" by simp
  have "r0 + r1 * 256 + r2 * 65536 + q3 * 16777216 = n"
    using 1 2 3 by linarith
  then show ?thesis
    unfolding b c d unfolding r0_def r1_def r2_def q1_def q2_def b[unfolded q2_def q1_def] .
qed

lemma readUInt32LE_setUint32LE:
  assumes "n < 2 ^ 32"
  shows "readUInt32LE (setUint32LE n @ rest) = n"
proof -
  have "readUInt32LE (setUint32LE n @ rest) =
          n mod 256 + (n div 256 mod 256) * 256 + (n div 65536 mod 256) * 65536
          + (n div 16777216 mod 256) * 16777216"
    by (simp add: readUInt32LE_def setUint32LE_def unat_of_nat)
  also have "\<dots> = n" by (rule le_bytes_decomposition[OF assms])
  finally show ?thesis .
qed

lemma length_frame_bytes [simp]: "length (frame_bytes payload) = 4 + length payload"
  by (simp add: frame_bytes_def)

lemma readUInt32LE_frame_bytes:
  "length payload < 2 ^ 32 \<Longrightarrow> readUInt32LE (frame_bytes payload @ rest) = length payload"
  by (simp add: frame_bytes_def readUInt32LE_setUint32LE)

lemma readUInt32LE_take:
  "4 \<le> k \<Longrightarrow> readUInt32LE (take k xs) = readUInt32LE xs"
  by (simp add: readUInt32LE_def)

lemma pendingBytes_new [simp]: "pendingBytes (new_FrameDecoder m) = 0"
  by (simp add: pendingBytes_def new_FrameDecoder_def)

subsection \<open>One round of the loop\<close>

lemma push_loop_short:
  "length buf < 4 \<Longrightarrow> push_loop ef ee m buf s = Returned (buf, s)"
  by (simp add: push_loop.simps)

lemma push_loop_incomplete:
  "4 \<le> length buf \<Longrightarrow> readUInt32LE buf \<le> m \<Longrightarrow> length buf < 4 + readUInt32LE buf \<Longrightarrow>
   push_loop ef ee m buf s = Returned (buf, s)"
  by (simp add: push_loop.simps)

lemma push_loop_oversized:
  "4 \<le> length buf \<Longrightarrow> m < readUInt32LE buf \<Longrightarrow>
   push_loop ef ee m buf s =
     (case ee (FrameTooLarge (readUInt32LE buf) m) s of
        Thrown e s' \<Rightarrow> Thrown e (buf, s')
      | Returned s' \<Rightarrow> Returned ([], s'))"
  by (simp add: push_loop.simps)

lemma push_loop_frame:
  assumes "length payload < 2 ^ 32" and "length payload \<le> m"
  shows "push_loop ef ee m (frame_bytes payload @ rest) s =
     (case ef payload s of
        Thrown e s' \<Rightarrow> Thrown e (frame_bytes payload @ rest, s')
      | Returned s' \<Rightarrow> push_loop ef ee m rest s')"
proof -
  define buf where "buf = frame_bytes payload @ rest"
  have len: "readUInt32LE buf = length payload"
    unfolding buf_def using assms(1) by (rule readUInt32LE_frame_bytes)
  have tk: "take (length payload) (drop 4 buf) = payload"
    by (simp add: buf_def frame_bytes_def)
  have dr: "drop (4 + length payload) buf = rest"
    by (simp add: buf_def frame_bytes_def)
  have l: "length buf = 4 + length payload + length rest"
    by (simp add: buf_def)
  have "push_loop ef ee m buf s =
     (case ef payload s of
        Thrown e s' \<Rightarrow> Thrown e (buf, s')
      | Returned s' \<Rightarrow> push_loop ef ee m rest s')"
    using assms(2)
    by (subst push_loop.simps) (simp add: Let_def len tk dr l cong: outcome.case_cong)
  then show ?thesis by (simp only: buf_def)
qed

lemma push_loop_prefix:
  assumes "length payload < 2 ^ 32" and "length payload \<le> m"
    and "pre @ suf = frame_bytes payload" and "suf \<noteq> []"
  shows "push_loop ef ee m pre s = Returned (pre, s)"
proof (cases "length pre < 4")
  case True
  then show ?thesis by (rule push_loop_short)
next
  case False
  have pre: "pre = take (length pre) (frame_bytes payload @ [])"
    using assms(3) by (metis append_Nil2 append_eq_conv_conj)
  have "readUInt32LE pre = readUInt32LE (frame_bytes payload @ [])"
    using False by (subst pre) (simp add: readUInt32LE_take)
  then have len: "readUInt32LE pre = length payload"
    using assms(1) by (simp only: readUInt32LE_frame_bytes)
  have "length pre < length (frame_bytes payload)"
    using assms(3,4) by (metis length_append length_greater_0_conv less_add_same_cancel1)
  then have "length pre < 4 + readUInt32LE pre"
    by (simp add: len)
  then show ?thesis
    using False assms(2) len by (simp add: push_loop_incomplete)
qed

subsection \<open>Coalesced frames\<close>

lemma push_loop_frames:
  assumes "\<forall>p \<in> set ps. length p < 2 ^ 32 \<and> length p \<le> m"
  shows "push_loop record_frame ee m (concat (map frame_bytes ps) @ rest) log =
         push_loop record_frame ee m rest (log @ map FrameEvent ps)"
  using assms
proof (induction ps arbitrary: log)
  case Nil
  then show ?case by simp
next
  case (Cons p ps)
  have "push_loop record_frame ee m (frame_bytes p @ (concat (map frame_bytes ps) @ rest)) log =
        push_loop record_frame ee m (concat (map frame_bytes ps) @ rest) (log @ [FrameEvent p])"
    using Cons.prems by (simp add: push_loop_frame record_frame_def)
  then show ?case using Cons by simp
qed

text \<open>
  Claim C7. For every list of payloads, each within the size limit (and short enough
  for a 32-bit length), one \<open>push\<close> of the concatenated frames into a fresh decoder
  emits exactly these payloads as frame events, in their order, no error event, and
  leaves no pending byte.
\<close>

theorem coalesced_frames_single_push:
  assumes "\<forall>p \<in> set ps. length p < 2 ^ 32 \<and> length p \<le> m"
  shows "\<exists>d'. push_recorded (concat (map frame_bytes ps)) (new_FrameDecoder m, []) =
            Returned (d', map FrameEvent ps) \<and> pendingBytes d' = 0"
proof -
  have "push_loop record_frame record_error m (concat (map frame_bytes ps) @ []) [] =
        push_loop record_frame record_error m [] ([] @ map FrameEvent ps)"
    using assms by (rule push_loop_frames)
  then have "push_loop record_frame record_error m (concat (map frame_bytes ps)) [] =
        Returned ([], map FrameEvent ps)"
    by (simp add: push_loop_short)
  then show ?thesis
    by (simp add: push_recorded_def push_def new_FrameDecoder_def pendingBytes_def)
qed

theorem coalesced_frames_single_push_witness:
  "\<exists>d'. push_recorded (concat (map frame_bytes [[0x40, 1], [0x41, 2, 3]])) (new_FrameDecoder 100, []) =
            Returned (d', map FrameEvent [[0x40, 1], [0x41, 2, 3]]) \<and> pendingBytes d' = 0"
  using coalesced_frames_single_push [of "[[0x40, 1], [0x41, 2, 3]]" 100] by simp

subsection \<open>Fragmented frames\<close>

lemma push_all_empty_chunks:
  assumes "concat cs = []" and "buffer d = []"
  shows "push_all cs (d, log) = Returned (d, log)"
  using assms
proof (induction cs)
  case Nil
  then show ?case by simp
next
  case (Cons c cs)
  then have "c = []" and "concat cs = []" by simp_all
  moreover have "push_recorded [] (d, log) = Returned (d, log)"
    using Cons.prems(2) by (simp add: push_recorded_def push_def push_loop_short)
  ultimately show ?case using Cons by simp
qed

lemma push_all_fragments:
  assumes "length payload < 2 ^ 32" and "length payload \<le> maxFrameSize d"
    and "buffer d @ concat chunks = frame_bytes payload" and "concat chunks \<noteq> []"
  shows "push_all chunks (d, log) = Returned (d\<lparr>buffer := []\<rparr>, log @ [FrameEvent payload])"
  using assms(3,4,2)
proof (induction chunks arbitrary: d)
  case Nil
  then show ?case by simp
next
  case (Cons c cs)
  show ?case
  proof (cases "concat cs = []")
    case True
    have whole: "buffer d @ c = frame_bytes payload"
      using Cons.prems(1) unfolding concat.simps True by simp
    have "push_loop record_frame record_error (maxFrameSize d) (frame_bytes payload @ []) log =
            Returned ([], log @ [FrameEvent payload])"
      using assms(1) Cons.prems(3)
      by (simp only: push_loop_frame) (simp add: record_frame_def push_loop_short)
    then have "push_recorded c (d, log) = Returned (d\<lparr>buffer := []\<rparr>, log @ [FrameEvent payload])"
      by (simp add: push_recorded_def push_def whole)
    moreover have "push_all cs (d\<lparr>buffer := []\<rparr>, log @ [FrameEvent payload]) =
                   Returned (d\<lparr>buffer := []\<rparr>, log @ [FrameEvent payload])"
      using True by (intro push_all_empty_chunks) simp_all
    ultimately show ?thesis by simp
  next
    case False
    have "(buffer d @ c) @ concat cs = frame_bytes payload" using Cons.prems(1) by simp
    with assms(1) Cons.prems(3)
    have "push_loop record_frame record_error (maxFrameSize d) (buffer d @ c) log =
                 Returned (buffer d @ c, log)"
      using False by (rule push_loop_prefix)
    then have step: "push_recorded c (d, log) = Returned (d\<lparr>buffer := buffer d @ c\<rparr>, log)"
      by (simp add: push_recorded_def push_def)
    have "push_all cs (d\<lparr>buffer := buffer d @ c\<rparr>, log) =
            Returned (d\<lparr>buffer := buffer d @ c\<rparr>\<lparr>buffer := []\<rparr>, log @ [FrameEvent payload])"
      using Cons.prems False by (intro Cons.IH) simp_all
    then show ?thesis using step by simp
  qed
qed

text \<open>
  Claim C6. For every payload within the size limit (the empty one too) and every way
  of cutting the bytes of its frame into chunks (empty chunks, one-byte chunks and
  cuts inside the header included), pushing the chunks in order into a fresh decoder
  emits exactly one frame event, with that payload, and no error event.
\<close>

theorem fragmentation_invariance:
  assumes "concat chunks = frame_bytes payload"
    and "length payload < 2 ^ 32" and "length payload \<le> m"
  shows "push_all chunks (new_FrameDecoder m, []) =
           Returned (new_FrameDecoder m, [FrameEvent payload])"
proof -
  have "concat chunks \<noteq> []"
    using assms(1) by (simp add: frame_bytes_def setUint32LE_def)
  then have "push_all chunks (new_FrameDecoder m, []) =
          Returned ((new_FrameDecoder m)\<lparr>buffer := []\<rparr>, [] @ [FrameEvent payload])"
    using assms by (intro push_all_fragments) (simp_all add: new_FrameDecoder_def)
  then show ?thesis by (simp add: new_FrameDecoder_def)
qed

theorem fragmentation_invariance_witness:
  "push_all [[2], [0, 0], [], [0, 0xab], [0xcd]] (new_FrameDecoder 16, []) =
     Returned (new_FrameDecoder 16, [FrameEvent [0xab, 0xcd]])
   \<and> push_all [[0, 0], [0, 0]] (new_FrameDecoder 16, []) =
     Returned (new_FrameDecoder 16, [FrameEvent []])"
  using fragmentation_invariance [of "[[2], [0, 0], [], [0, 0xab], [0xcd]]" "[0xab, 0xcd]" 16]
    fragmentation_invariance [of "[[0, 0], [0, 0]]" "[]" 16]
  by (simp add: frame_bytes_def setUint32LE_def)

subsection \<open>Oversized frames\<close>

text \<open>
  Claim C2, as the code has it. With an \<open>'error'\<close> listener registered, when the buffer
  of a \<open>push\<close> call holds complete frames within the limit and then a header that
  declares more than the limit, the call emits those frames, then exactly one error
  event, and returns at once: nothing after the header is looked at, and the decoder
  is left exactly as \<open>reset\<close> leaves it, with no pending byte. The decoder keeps no
  record of the failure, so the next \<open>push\<close> is handled like one after \<open>reset\<close>.
\<close>

theorem oversized_frame_push:
  assumes "\<forall>p \<in> set ps. length p < 2 ^ 32 \<and> length p \<le> maxFrameSize d"
    and "buffer d @ chunk = concat (map frame_bytes ps) @ rest"
    and "4 \<le> length rest" and "maxFrameSize d < readUInt32LE rest"
  shows "push_recorded chunk (d, log) =
           Returned (reset d, log @ map FrameEvent ps @
                       [ErrorEvent (FrameTooLarge (readUInt32LE rest) (maxFrameSize d))])
         \<and> pendingBytes (reset d) = 0"
proof -
  have "push_loop record_frame record_error (maxFrameSize d) (concat (map frame_bytes ps) @ rest) log =
        push_loop record_frame record_error (maxFrameSize d) rest (log @ map FrameEvent ps)"
    using assms(1) by (rule push_loop_frames)
  also have "\<dots> = Returned ([], log @ map FrameEvent ps @
                       [ErrorEvent (FrameTooLarge (readUInt32LE rest) (maxFrameSize d))])"
    using assms(3,4) by (simp add: push_loop_oversized record_error_def)
  finally show ?thesis
    by (simp add: push_recorded_def push_def assms(2) reset_def pendingBytes_def)
qed

theorem oversized_frame_push_witness:
  "push_recorded [2, 0, 0, 0, 0x40, 1, 0xc8, 0, 0, 0, 1, 0, 0, 0, 0x41] (new_FrameDecoder 100, []) =
     Returned (reset (new_FrameDecoder 100),
               [FrameEvent [0x40, 1], ErrorEvent (FrameTooLarge 200 100)])
   \<and> pendingBytes (reset (new_FrameDecoder 100)) = 0"
  using oversized_frame_push [of "[[0x40, 1]]" "new_FrameDecoder 100"
      "[2, 0, 0, 0, 0x40, 1, 0xc8, 0, 0, 0, 1, 0, 0, 0, 0x41]"
      "[0xc8, 0, 0, 0, 1, 0, 0, 0, 0x41]" "[]"]
  by (simp add: new_FrameDecoder_def frame_bytes_def setUint32LE_def readUInt32LE_def)

text \<open>
  After the error event of an oversized header, and without any \<open>reset\<close>, the next
  \<open>push\<close> of a complete frame emits a frame event.
\<close>

theorem oversized_then_frame_counterexample:
  "push_all [[0xc8, 0, 0, 0], [1, 0, 0, 0, 0x40]] (new_FrameDecoder 100, []) =
     Returned (new_FrameDecoder 100, [ErrorEvent (FrameTooLarge 200 100), FrameEvent [0x40]])"
  by (simp add: push_recorded_def push_def new_FrameDecoder_def push_loop.simps
      readUInt32LE_def record_error_def record_frame_def)

section \<open>Properties of the request pipeline\<close>

subsection \<open>Sequence numbers\<close>

lemma nextSequenceId_sint: "nextSequenceId s = sint (word_of_int (s + 1) :: 32 word)"
proof -
  have "(word_of_int 4294967295 :: 32 word) = - 1" by simp
  then show ?thesis unfolding nextSequenceId_def js_bitand_def by (simp only: word_and_max)
qed

lemma sint_word_of_int_32:
  assumes "- (2 ^ 31) \<le> k" and "k < 2 ^ 31"
  shows "sint (word_of_int k :: 32 word) = k"
  using assms by (simp add: sint_sbintrunc' signed_take_bit_int_eq_self)

lemma nextSequenceId_small:
  assumes "- (2 ^ 31) \<le> s + 1" and "s + 1 < 2 ^ 31"
  shows "nextSequenceId s = s + 1"
  unfolding nextSequenceId_sint using assms by (rule sint_word_of_int_32)

lemma nextSequenceId_range: "- (2 ^ 31) \<le> nextSequenceId s \<and> nextSequenceId s < 2 ^ 31"
  using sint_ge[of "word_of_int (s + 1) :: 32 word"] sint_lt[of "word_of_int (s + 1) :: 32 word"]
  by (simp add: nextSequenceId_sint)

text \<open>
  Claim C8 says that the sequence numbers stay in \<open>[0, 2 ^ 32 - 1]\<close>. The code masks
  with \<open>& 0xffffffff\<close>, whose result is a signed 32-bit integer: the successor of
  \<open>2 ^ 31 - 1\<close> is \<open>- 2 ^ 31\<close>.
\<close>

theorem nextSequenceId_signed_wrap: "nextSequenceId 2147483647 = - 2147483648"
  by (simp add: nextSequenceId_def js_bitand_def)

subsection \<open>Rejecting every pending entry\<close>

lemma rejectAll_loop_eq:
  "rejectAll_loop e es p =
     p\<lparr>invocations := invocations p @ map (\<lambda>(k, r). (promise r, Reject e)) es,
       pending := filter (\<lambda>(k, r). k \<notin> fst ` set es) (pending p)\<rparr>"
proof (induction es arbitrary: p)
  case Nil
  then show ?case by simp
next
  case (Cons x es)
  obtain k r where x: "x = (k, r)" by (cases x)
  have "filter (\<lambda>(k', r). k' \<notin> fst ` set es) (Map_delete k (pending p)) =
        filter (\<lambda>(k', r). k' \<notin> fst ` set (x # es)) (pending p)"
    by (auto simp: Map_delete_def x intro: filter_cong)
  then show ?case by (simp add: Cons.IH x)
qed

lemma filter_own_keys: "filter (\<lambda>(k, r). k \<notin> fst ` set m) m = []"
  by (auto simp: filter_empty_conv intro: rev_image_eqI)

lemma rejectAllPending_eq:
  "rejectAllPending e p =
     p\<lparr>invocations := invocations p @ map (\<lambda>(k, r). (promise r, Reject e)) (pending p),
       pending := []\<rparr>"
  by (simp add: rejectAllPending_def rejectAll_loop_eq filter_own_keys)

text \<open>
  Claim C10. The first \<open>destroy\<close> clears the timer, removes the decoder's listeners,
  empties the decoder's buffer (no pending byte is left, the size limit stays) and
  calls \<open>reject\<close> with the destroyed error once for each entry pending at that moment,
  in their order, leaving none pending. A second \<open>destroy\<close> changes nothing: it calls
  no continuation; nor does a \<open>destroy\<close> with nothing pending. Two calls of \<open>destroy\<close>
  in a row both return: no statement of \<open>destroy\<close> can throw.
\<close>

theorem destroy_idempotent:
  "run decode [Destroy, Destroy] p = Returned (destroy p)
   \<and> destroy (destroy p) = destroy p
   \<and> invocations (destroy (destroy p)) = invocations (destroy p)
   \<and> invocations (destroy p) =
       invocations p @ map (\<lambda>(k, r). (promise r, Reject PipelineDestroyed)) (pending p)
   \<and> (pending p = [] \<longrightarrow> invocations (destroy p) = invocations p)
   \<and> pending (destroy p) = []
   \<and> \<not> timeoutChecker (destroy p)
   \<and> \<not> decoder_listeners (destroy p)
   \<and> buffer (decoder (destroy p)) = []
   \<and> pendingBytes (decoder (destroy p)) = 0
   \<and> maxFrameSize (decoder (destroy p)) = maxFrameSize (decoder p)"
proof -
  have idem: "destroy (destroy p) = destroy p"
    by (simp add: destroy_def Let_def rejectAll_loop_eq filter_own_keys reset_def)
  have "run decode [Destroy, Destroy] p = Returned (destroy (destroy p))"
    by (simp add: step_def)
  then have twice: "run decode [Destroy, Destroy] p = Returned (destroy p)"
    by (simp only: idem)
  have calls: "invocations (destroy p) =
       invocations p @ map (\<lambda>(k, r). (promise r, Reject PipelineDestroyed)) (pending p)"
    by (simp add: destroy_def Let_def rejectAll_loop_eq)
  have rest: "pending (destroy p) = []" "\<not> timeoutChecker (destroy p)"
    "\<not> decoder_listeners (destroy p)" "buffer (decoder (destroy p)) = []"
    "pendingBytes (decoder (destroy p)) = 0"
    "maxFrameSize (decoder (destroy p)) = maxFrameSize (decoder p)"
    by (simp_all add: destroy_def Let_def rejectAll_loop_eq filter_own_keys reset_def
        pendingBytes_def)
  show ?thesis
    using twice idem calls rest by simp
qed

theorem destroy_idempotent_witness:
  "pending (new_RequestPipeline DEFAULT_CONFIG) = []
   \<and> invocations (destroy (new_RequestPipeline DEFAULT_CONFIG)) = []
   \<and> invocations (destroy (sends [([1, 0, 0, 0, 0x40], 0x40, 5), ([1, 0, 0, 0, 0x41], 0x41, 6)]
                               (new_RequestPipeline DEFAULT_CONFIG))) =
       [(0, Reject PipelineDestroyed), (1, Reject PipelineDestroyed)]
   \<and> run ascii_text [Destroy, Destroy]
         (sends [([1, 0, 0, 0, 0x40], 0x40, 5), ([1, 0, 0, 0, 0x41], 0x41, 6)]
            (new_RequestPipeline DEFAULT_CONFIG)) =
       Returned ((sends [([1, 0, 0, 0, 0x40], 0x40, 5), ([1, 0, 0, 0, 0x41], 0x41, 6)]
                    (new_RequestPipeline DEFAULT_CONFIG))
         \<lparr>pending := [], decoder_listeners := False, timeoutChecker := False,
          invocations := [(0, Reject PipelineDestroyed), (1, Reject PipelineDestroyed)]\<rparr>)"
  using destroy_idempotent [of ascii_text "new_RequestPipeline DEFAULT_CONFIG"]
    destroy_idempotent [of ascii_text
      "sends [([1, 0, 0, 0, 0x40], 0x40, 5), ([1, 0, 0, 0, 0x41], 0x41, 6)]
         (new_RequestPipeline DEFAULT_CONFIG)"]
  by (simp add: send_def new_RequestPipeline_def DEFAULT_CONFIG_def new_FrameDecoder_def
      Map_set_def Map_delete_def Let_def nextSequenceId_def js_bitand_def destroy_def reset_def)

subsection \<open>Error and success responses\<close>

lemma u16_bytes:
  assumes "n < 2 ^ 16"
  shows "unat (word_of_nat n :: byte) + unat (word_of_nat (n div 2 ^ 8) :: byte) * 2 ^ 8 = n"
proof -
  have "n div 256 < 256" using assms by simp
  then have "n div 256 mod 256 = n div 256" by simp
  then show ?thesis by (simp add: unat_of_nat)
qed

lemma readString_message:
  assumes "length msg < 2 ^ 16"
  shows "readString decode (code # setUint16LE (length msg) @ msg @ extra) 1 =
           Inr (decode msg, 3 + length msg)"
proof -
  define b0 :: byte where "b0 = word_of_nat (length msg)"
  define b1 :: byte where "b1 = word_of_nat (length msg div 2 ^ 8)"
  have "unat b0 + unat b1 * 2 ^ 8 = length msg"
    unfolding b0_def b1_def using assms by (rule u16_bytes)
  then have len: "unat b0 + unat b1 * 256 = length msg" by simp
  have "decodeString decode (code # b0 # b1 # msg @ extra) 1 = Inr (decode msg, 2 + length msg)"
    unfolding decodeString_def by (simp add: Let_def len)
  then show ?thesis
    by (simp add: readString_def setUint16LE_def b0_def b1_def)
qed

lemma handleFrame_error:
  assumes "pending p = (seqId, request) # rest" and "length msg < 2 ^ 16"
  shows "handleFrame decode (RESPONSE_ERROR # code # setUint16LE (length msg) @ msg @ extra) p =
           Returned (p\<lparr>pending := Map_delete seqId (pending p),
                      invocations := invocations p @
                        [(promise request,
                          Reject (MindFryError code (''['' @ ErrorCode_name code @ ''] '' @ decode msg)))]\<rparr>)"
proof -
  define data where "data = code # setUint16LE (length msg) @ msg @ extra"
  have r8: "readU8 data 0 = Inr (code, 1)" by (simp add: readU8_def data_def)
  have "readString decode data 1 = Inr (decode msg, 3 + length msg)"
    unfolding data_def using assms(2) by (rule readString_message)
  then have rs: "readString decode data (Suc 0) = Inr (decode msg, 3 + length msg)" by simp
  show ?thesis
    unfolding data_def[symmetric]
    by (simp add: handleFrame_def assms(1) Let_def r8 rs new_MindFryError_def)
qed

lemma handleFrame_success:
  assumes "pending p = (seqId, request) # rest" and "tag \<noteq> RESPONSE_ERROR"
  shows "handleFrame decode (tag # data) p =
           Returned (p\<lparr>pending := Map_delete seqId (pending p),
                      invocations := invocations p @ [(promise request, Resolve data)]\<rparr>)"
  using assms by (simp add: handleFrame_def Let_def)

text \<open>
  Claim C5, as the code has it. With an oldest pending entry, a frame tagged
  \<open>RESPONSE_ERROR\<close> whose body is an error code and a message with its 16-bit length
  prefix removes that entry and calls its \<open>reject\<close> with a \<open>MindFryError\<close>: its \<open>code\<close>
  field is the code, and its text is the name of the code in brackets, a space, and
  then what the platform's text decoder \<open>decode\<close> returns for the bytes of the message
  (whatever that decoder is: the pipeline adds nothing else and drops nothing). A
  frame with any other tag removes the entry and calls its \<open>resolve\<close> with the bytes
  after the tag.
\<close>

theorem error_and_success_frames:
  assumes "pending p = (seqId, request) # rest"
  shows "(length msg < 2 ^ 16 \<longrightarrow>
            handleFrame decode (RESPONSE_ERROR # code # setUint16LE (length msg) @ msg) p =
              Returned (p\<lparr>pending := Map_delete seqId (pending p),
                         invocations := invocations p @
                           [(promise request,
                             Reject (MindFryError code
                                       (''['' @ ErrorCode_name code @ ''] '' @ decode msg)))]\<rparr>))
       \<and> (tag \<noteq> RESPONSE_ERROR \<longrightarrow>
            handleFrame decode (tag # data) p =
              Returned (p\<lparr>pending := Map_delete seqId (pending p),
                         invocations := invocations p @ [(promise request, Resolve data)]\<rparr>))"
  using handleFrame_error[OF assms, of msg decode code "[]"] handleFrame_success[OF assms]
  by simp


lemma ascii_text_hi: "ascii_text [0x68, 0x69] = ''hi''"
  by code_simp

theorem error_and_success_frames_witness:
  "handleFrame ascii_text [0xf1, 0x10, 2, 0, 0x68, 0x69]
     (sends [([1, 0, 0, 0, 0x40], 0x40, 5)] (new_RequestPipeline DEFAULT_CONFIG)) =
   Returned ((sends [([1, 0, 0, 0, 0x40], 0x40, 5)] (new_RequestPipeline DEFAULT_CONFIG))
              \<lparr>pending := [],
               invocations := [(0, Reject (MindFryError 0x10 ''[LINEAGE_NOT_FOUND] hi''))]\<rparr>)
   \<and> handleFrame ascii_text [0xf0, 7]
     (sends [([1, 0, 0, 0, 0x40], 0x40, 5)] (new_RequestPipeline DEFAULT_CONFIG)) =
   Returned ((sends [([1, 0, 0, 0, 0x40], 0x40, 5)] (new_RequestPipeline DEFAULT_CONFIG))
              \<lparr>pending := [], invocations := [(0, Resolve [7])]\<rparr>)"
  using error_and_success_frames [where p = "sends [([1, 0, 0, 0, 0x40], 0x40, 5)] (new_RequestPipeline DEFAULT_CONFIG)"
      and seqId = 1 and request = "\<lparr>promise = 0, opcode = 0x40, timestamp = 5\<rparr>" and rest = "[]"
      and msg = "[0x68, 0x69]" and decode = ascii_text and code = "0x10" and tag = "0xf0" and data = "[7]"]
  by (simp add: send_def new_RequestPipeline_def DEFAULT_CONFIG_def new_FrameDecoder_def
      Map_set_def Map_delete_def Let_def nextSequenceId_def js_bitand_def setUint16LE_def
      RESPONSE_ERROR_def ErrorCode_name_def ascii_text_hi)

text \<open>
  The error code \<open>0x10\<close> with the message \<open>hi\<close>: the text of the error that the pending
  call is rejected with is not \<open>hi\<close>.
\<close>

theorem error_message_prefixed_counterexample:
  "handleFrame ascii_text [0xf1, 0x10, 2, 0, 0x68, 0x69]
     (sends [([1, 0, 0, 0, 0x40], 0x40, 5)] (new_RequestPipeline DEFAULT_CONFIG)) =
   Returned ((sends [([1, 0, 0, 0, 0x40], 0x40, 5)] (new_RequestPipeline DEFAULT_CONFIG))
              \<lparr>pending := [],
               invocations := [(0, Reject (MindFryError 0x10 ''[LINEAGE_NOT_FOUND] hi''))]\<rparr>)
   \<and> ascii_text [0x68, 0x69] = ''hi''
   \<and> ''[LINEAGE_NOT_FOUND] hi'' \<noteq> ''hi''"
  by (simp add: send_def new_RequestPipeline_def DEFAULT_CONFIG_def new_FrameDecoder_def
      Map_set_def Map_delete_def Let_def nextSequenceId_def js_bitand_def handleFrame_def
      RESPONSE_ERROR_def readU8_def readString_def decodeString_def new_MindFryError_def
      ErrorCode_name_def ascii_text_hi)

subsection \<open>Sending\<close>

lemma Map_set_fresh: "k \<notin> fst ` set m \<Longrightarrow> Map_set k v m = m @ [(k, v)]"
  by (simp add: Map_set_def)

lemma send_rejected:
  assumes "maxPending (config p) \<le> length (pending p)"
  shows "send frame opc now p =
           (promises p,
            p\<lparr>promises := promises p + 1,
              invocations := invocations p @
                [(promises p, Reject (Backpressure (length (pending p))))]\<rparr>)"
  using assms by (simp add: send_def Let_def)

lemma send_accepted:
  assumes "length (pending p) < maxPending (config p)"
  shows "send frame opc now p =
           (promises p,
            p\<lparr>promises := promises p + 1,
              sequenceId := nextSequenceId (sequenceId p),
              pending := Map_set (nextSequenceId (sequenceId p))
                           \<lparr>promise = promises p, opcode = opc, timestamp = now\<rparr> (pending p),
              written := written p @ [frame],
              write_callbacks := write_callbacks p @ [(nextSequenceId (sequenceId p), promises p)]\<rparr>)"
  using assms by (simp add: send_def Let_def)

lemma sends_from_low_ids:
  assumes "sequenceId p = int n"
    and "\<forall>k \<in> fst ` set (pending p). k \<le> int n"
    and "length (pending p) + length reqs \<le> maxPending (config p)"
    and "n + length reqs < 2 ^ 31"
  shows "written (sends reqs p) = written p @ map fst reqs
       \<and> invocations (sends reqs p) = invocations p
       \<and> config (sends reqs p) = config p
       \<and> promises (sends reqs p) = promises p + length reqs
       \<and> sequenceId (sends reqs p) = int (n + length reqs)
       \<and> map (promise \<circ> snd) (pending (sends reqs p)) =
           map (promise \<circ> snd) (pending p) @ [promises p..<promises p + length reqs]
       \<and> map fst (pending (sends reqs p)) =
           map fst (pending p) @ map int [Suc n..<Suc n + length reqs]"
  using assms
proof (induction reqs arbitrary: p n)
  case Nil
  then show ?case by simp
next
  case (Cons r reqs)
  obtain frame opc now where r: "r = (frame, opc, now)" by (cases r)
  let ?q = "snd (send frame opc now p)"
  have nx: "nextSequenceId (sequenceId p) = int (Suc n)"
    using Cons.prems(1,4) by (simp add: nextSequenceId_small)
  have fresh: "int (Suc n) \<notin> fst ` set (pending p)"
    using Cons.prems(2) by fastforce
  have q: "?q = p\<lparr>promises := promises p + 1,
              sequenceId := int (Suc n),
              pending := pending p @ [(int (Suc n), \<lparr>promise = promises p, opcode = opc, timestamp = now\<rparr>)],
              written := written p @ [frame],
              write_callbacks := write_callbacks p @ [(int (Suc n), promises p)]\<rparr>"
    using Cons.prems(3) fresh by (simp add: send_accepted nx Map_set_fresh)
  have "written (sends reqs ?q) = written ?q @ map fst reqs
       \<and> invocations (sends reqs ?q) = invocations ?q
       \<and> config (sends reqs ?q) = config ?q
       \<and> promises (sends reqs ?q) = promises ?q + length reqs
       \<and> sequenceId (sends reqs ?q) = int (Suc n + length reqs)
       \<and> map (promise \<circ> snd) (pending (sends reqs ?q)) =
           map (promise \<circ> snd) (pending ?q) @ [promises ?q..<promises ?q + length reqs]
       \<and> map fst (pending (sends reqs ?q)) =
           map fst (pending ?q) @ map int [Suc (Suc n)..<Suc (Suc n) + length reqs]"
  proof (rule Cons.IH)
    show "sequenceId ?q = int (Suc n)" by (simp add: q)
    show "\<forall>k\<in>fst ` set (pending ?q). k \<le> int (Suc n)"
      using Cons.prems(2) by (auto simp: q)
    show "length (pending ?q) + length reqs \<le> maxPending (config ?q)"
      using Cons.prems(3) by (simp add: q)
    show "Suc n + length reqs < 2 ^ 31" using Cons.prems(4) by simp
  qed
  note ih = this
  have s: "sends (r # reqs) p = sends reqs ?q" by (simp add: r)
  have u1: "[promises p..<promises p + length (r # reqs)] =
            promises p # [promises ?q..<promises ?q + length reqs]"
    by (simp del: upt_Suc add: q upt_conv_Cons)
  have u2: "[Suc n..<Suc n + length (r # reqs)] = Suc n # [Suc (Suc n)..<Suc (Suc n) + length reqs]"
    by (simp del: upt_Suc add: upt_conv_Cons)
  have c1: "written (sends (r # reqs) p) = written p @ map fst (r # reqs)"
    using ih by (simp add: s) (simp add: q r)
  have c2: "invocations (sends (r # reqs) p) = invocations p"
    using ih by (simp add: s) (simp add: q)
  have c3: "config (sends (r # reqs) p) = config p"
    using ih by (simp add: s) (simp add: q)
  have c4: "promises (sends (r # reqs) p) = promises p + length (r # reqs)"
    using ih by (simp add: s) (simp add: q)
  have c5: "sequenceId (sends (r # reqs) p) = int (n + length (r # reqs))"
    using ih by (simp add: s)
  have c6: "map (promise \<circ> snd) (pending (sends (r # reqs) p)) =
           map (promise \<circ> snd) (pending p) @ [promises p..<promises p + length (r # reqs)]"
    unfolding u1 s using ih by (simp add: q)
  have c7: "map fst (pending (sends (r # reqs) p)) =
           map fst (pending p) @ map int [Suc n..<Suc n + length (r # reqs)]"
    unfolding u2 s using ih by (simp add: q)
  from c1 c2 c3 c4 c5 c6 c7 show ?case by blast
qed


lemma sends_fresh:
  assumes "length reqs \<le> maxPending cfg" and "length reqs < 2 ^ 31"
  shows "written (sends reqs (new_RequestPipeline cfg)) = map fst reqs"
    and "invocations (sends reqs (new_RequestPipeline cfg)) = []"
    and "config (sends reqs (new_RequestPipeline cfg)) = cfg"
    and "promises (sends reqs (new_RequestPipeline cfg)) = length reqs"
    and "map (promise \<circ> snd) (pending (sends reqs (new_RequestPipeline cfg))) = [0..<length reqs]"
    and "map fst (pending (sends reqs (new_RequestPipeline cfg))) = map int [Suc 0..<Suc (length reqs)]"
    and "length (pending (sends reqs (new_RequestPipeline cfg))) = length reqs"
proof -
  let ?N = "new_RequestPipeline cfg"
  let ?P = "sends reqs ?N"
  have f: "written ?P = written ?N @ map fst reqs
       \<and> invocations ?P = invocations ?N
       \<and> config ?P = config ?N
       \<and> promises ?P = promises ?N + length reqs
       \<and> sequenceId ?P = int (0 + length reqs)
       \<and> map (promise \<circ> snd) (pending ?P) =
           map (promise \<circ> snd) (pending ?N) @ [promises ?N..<promises ?N + length reqs]
       \<and> map fst (pending ?P) =
           map fst (pending ?N) @ map int [Suc 0..<Suc 0 + length reqs]"
    using assms by (intro sends_from_low_ids) (simp_all add: new_RequestPipeline_def)
  have n: "written ?N = []" "invocations ?N = []" "config ?N = cfg" "promises ?N = 0" "pending ?N = []"
    by (simp_all add: new_RequestPipeline_def)
  show "written ?P = map fst reqs" using f by (simp add: n)
  show "invocations ?P = []" using f by (simp add: n)
  show "config ?P = cfg" using f by (simp add: n)
  show "promises ?P = length reqs" using f by (simp add: n)
  show "map (promise \<circ> snd) (pending ?P) = [0..<length reqs]" using f by (simp add: n)
  show k: "map fst (pending ?P) = map int [Suc 0..<Suc (length reqs)]"
    using f by (simp add: n del: upt_Suc)
  have "length (map fst (pending ?P)) = length reqs"
    unfolding k by (simp del: upt_Suc)
  then show "length (pending ?P) = length reqs" by simp
qed

text \<open>
  Claim C4. At or above \<open>maxPending\<close> pending entries, \<open>send\<close> only creates the promise
  it returns and rejects it with the backpressure error: the sequence counter, the
  pending map, the decoder and the frames written to the socket are unchanged. Below
  \<open>maxPending\<close> the frame is written and no continuation is called. On a fresh
  pipeline with \<open>maxPending = K\<close> (below \<open>2 ^ 31\<close>), \<open>K\<close> calls in a row are all
  written and the next one is rejected without a write.
\<close>

theorem send_backpressure:
  "(maxPending (config p) \<le> length (pending p) \<longrightarrow>
      send frame opc now p =
        (promises p,
         p\<lparr>promises := promises p + 1,
           invocations := invocations p @
             [(promises p, Reject (Backpressure (length (pending p))))]\<rparr>))
   \<and> (length (pending p) < maxPending (config p) \<longrightarrow>
        written (snd (send frame opc now p)) = written p @ [frame]
        \<and> invocations (snd (send frame opc now p)) = invocations p)
   \<and> (length reqs = maxPending cfg \<longrightarrow> maxPending cfg < 2 ^ 31 \<longrightarrow>
        written (sends reqs (new_RequestPipeline cfg)) = map fst reqs
        \<and> invocations (sends reqs (new_RequestPipeline cfg)) = []
        \<and> length (pending (sends reqs (new_RequestPipeline cfg))) = maxPending cfg
        \<and> snd (send frame opc now (sends reqs (new_RequestPipeline cfg))) =
            (sends reqs (new_RequestPipeline cfg))
              \<lparr>promises := maxPending cfg + 1,
               invocations := [(maxPending cfg, Reject (Backpressure (maxPending cfg)))]\<rparr>)"
proof -
  let ?P = "sends reqs (new_RequestPipeline cfg)"
  have boundary: "written ?P = map fst reqs \<and> invocations ?P = []
        \<and> length (pending ?P) = maxPending cfg
        \<and> snd (send frame opc now ?P) =
            ?P\<lparr>promises := maxPending cfg + 1,
               invocations := [(maxPending cfg, Reject (Backpressure (maxPending cfg)))]\<rparr>"
    if len: "length reqs = maxPending cfg" and small: "maxPending cfg < 2 ^ 31"
  proof -
    have a: "length reqs \<le> maxPending cfg" and b: "length reqs < 2 ^ 31"
      using len small by simp_all
    note f = sends_fresh[OF a b]
    show ?thesis
      using f(1,2,3,4,7) len by (simp add: send_rejected)
  qed
  show ?thesis
    using boundary by (simp add: send_rejected send_accepted)
qed

theorem send_backpressure_witness:
  "send [1, 0, 0, 0, 0x42] 0x42 7
     (sends [([1, 0, 0, 0, 0x40], 0x40, 5), ([1, 0, 0, 0, 0x41], 0x41, 6)]
        (new_RequestPipeline (DEFAULT_CONFIG\<lparr>maxPending := 2\<rparr>))) =
   (2, (sends [([1, 0, 0, 0, 0x40], 0x40, 5), ([1, 0, 0, 0, 0x41], 0x41, 6)]
          (new_RequestPipeline (DEFAULT_CONFIG\<lparr>maxPending := 2\<rparr>)))
        \<lparr>promises := 3, invocations := [(2, Reject (Backpressure 2))]\<rparr>)
   \<and> written (sends [([1, 0, 0, 0, 0x40], 0x40, 5), ([1, 0, 0, 0, 0x41], 0x41, 6)]
        (new_RequestPipeline (DEFAULT_CONFIG\<lparr>maxPending := 2\<rparr>))) =
       [[1, 0, 0, 0, 0x40], [1, 0, 0, 0, 0x41]]
   \<and> written (snd (send [1, 0, 0, 0, 0x40] 0x40 5
        (new_RequestPipeline (DEFAULT_CONFIG\<lparr>maxPending := 2\<rparr>)))) = [[1, 0, 0, 0, 0x40]]"
  using send_backpressure [where p = "sends [([1, 0, 0, 0, 0x40], 0x40, 5), ([1, 0, 0, 0, 0x41], 0x41, 6)]
        (new_RequestPipeline (DEFAULT_CONFIG\<lparr>maxPending := 2\<rparr>))"
      and frame = "[1, 0, 0, 0, 0x42]" and opc = "0x42" and now = 7
      and reqs = "[([1, 0, 0, 0, 0x40], 0x40, 5), ([1, 0, 0, 0, 0x41], 0x41, 6)]"
      and cfg = "DEFAULT_CONFIG\<lparr>maxPending := 2\<rparr>"]
    send_backpressure [where p = "new_RequestPipeline (DEFAULT_CONFIG\<lparr>maxPending := 2\<rparr>)"
      and frame = "[1, 0, 0, 0, 0x40]" and opc = "0x40" and now = 5
      and reqs = "[([1, 0, 0, 0, 0x40], 0x40, 5), ([1, 0, 0, 0, 0x41], 0x41, 6)]"
      and cfg = "DEFAULT_CONFIG\<lparr>maxPending := 2\<rparr>"]
  by (simp add: send_def new_RequestPipeline_def DEFAULT_CONFIG_def new_FrameDecoder_def
      Map_set_def Let_def nextSequenceId_def js_bitand_def)

subsection \<open>First in, first out\<close>

lemma Map_delete_head:
  assumes "distinct (map fst ((k, r) # rest))"
  shows "Map_delete k ((k, r) # rest) = rest"
proof -
  have "\<forall>x \<in> set rest. fst x \<noteq> k" using assms by auto
  then have "filter (\<lambda>(k', v'). k' \<noteq> k) rest = rest"
    by (intro filter_True) auto
  then show ?thesis by (simp add: Map_delete_def)
qed

lemma handleFrame_well_formed:
  assumes "pending p = (k, r) # rest" and "distinct (map fst (pending p))"
    and "well_formed_response f"
  shows "handleFrame decode f p =
           Returned (p\<lparr>pending := rest,
                      invocations := invocations p @ [(promise r, settlement_of decode f)]\<rparr>)"
proof -
  have del: "Map_delete k (pending p) = rest"
    using assms(1,2) by (simp only: Map_delete_head)
  obtain tag data where f: "f = tag # data"
    using assms(3) by (cases f) (auto simp: well_formed_response_def)
  show ?thesis
  proof (cases "tag = RESPONSE_ERROR")
    case False
    then show ?thesis
      using handleFrame_success[OF assms(1) False, of decode data]
      by (simp add: f del settlement_of_def)
  next
    case True
    then have "4 \<le> length f" using assms(3) by (simp add: well_formed_response_def f)
    then obtain c b0 b1 tl where data: "data = c # b0 # b1 # tl"
      unfolding f by (cases data; cases "tl data"; cases "tl (tl data)") auto
    have r8: "readU8 data 0 = Inr (c, 1)" by (simp add: readU8_def data)
    have rs: "readString decode data (Suc 0) =
                Inr (decode (take (unat b0 + unat b1 * 2 ^ 8) tl), 3 + (unat b0 + unat b1 * 2 ^ 8))"
      by (simp add: readString_def decodeString_def data Let_def)
    have so: "settlement_of decode f =
                Reject (new_MindFryError c (decode (take (unat b0 + unat b1 * 2 ^ 8) tl)))"
      using True by (simp add: settlement_of_def f data new_MindFryError_def)
    have "handleFrame decode (tag # data) p =
           Returned (p\<lparr>pending := rest,
                      invocations := invocations p @ [(promise r, settlement_of decode f)]\<rparr>)"
      unfolding so using True
      by (simp add: handleFrame_def assms(1) del[unfolded assms(1)] Let_def r8 rs)
    then show ?thesis by (simp only: f)
  qed
qed

lemma handleFrames_fifo:
  assumes "distinct (map fst (pending p))" and "\<forall>f \<in> set fs. well_formed_response f"
    and "length fs \<le> length (pending p)"
  shows "handleFrames decode fs p =
           Returned (p\<lparr>pending := drop (length fs) (pending p),
                      invocations := invocations p @
                        map (\<lambda>((k, r), f). (promise r, settlement_of decode f))
                          (zip (pending p) fs)\<rparr>)"
  using assms
proof (induction fs arbitrary: p)
  case Nil
  then show ?case by simp
next
  case (Cons f fs)
  then obtain k r rest where pend: "pending p = (k, r) # rest"
    by (cases "pending p") auto
  let ?q = "p\<lparr>pending := rest,
              invocations := invocations p @ [(promise r, settlement_of decode f)]\<rparr>"
  have hf: "handleFrame decode f p = Returned ?q"
    using pend Cons.prems(1,2) by (intro handleFrame_well_formed) simp_all
  have "handleFrames decode fs ?q =
           Returned (?q\<lparr>pending := drop (length fs) (pending ?q),
                      invocations := invocations ?q @
                        map (\<lambda>((k, r), f). (promise r, settlement_of decode f))
                          (zip (pending ?q) fs)\<rparr>)"
    using Cons.prems by (intro Cons.IH) (simp_all add: pend)
  then show ?case by (simp add: hf pend)
qed


lemma zip_upt_truncate:
  assumes "length fs \<le> n"
  shows "zip [0..<n] fs = zip [0..<length fs] fs"
proof -
  have "zip [0..<n] fs = take (length fs) (zip [0..<n] fs)"
    using assms by simp
  also have "\<dots> = zip (take (length fs) [0..<n]) (take (length fs) fs)"
    by (rule take_zip)
  also have "\<dots> = zip [0..<length fs] fs"
    using assms by (simp add: min_absorb2)
  finally show ?thesis .
qed

text \<open>
  Claim C1, as the code has it. Let every delivered frame be one that \<open>handleFrame\<close>
  interprets: not empty, and with the error code and the length prefix present when it
  is tagged as an error. Then
  \<^item> in any state, \<open>k\<close> such frames (no more than there are pending entries) settle the
    \<open>k\<close> oldest pending entries in their insertion order, the \<open>i\<close>-th frame the \<open>i\<close>-th
    entry, each with what its own frame says, and the other entries stay pending in
    order;
  \<^item> after \<open>n\<close> calls of \<open>send\<close> on a fresh pipeline (\<open>n\<close> within \<open>maxPending\<close> and below
    \<open>2 ^ 31\<close>) the \<open>i\<close>-th frame settles the promise of the \<open>i\<close>-th call;
  \<^item> an accepted \<open>send\<close> whose sequence number is not a key of the pending map puts its
    entry last in the insertion order.
\<close>

theorem fifo_resolution:
  assumes "\<forall>f \<in> set fs. well_formed_response f"
  shows "(distinct (map fst (pending p)) \<longrightarrow> length fs \<le> length (pending p) \<longrightarrow>
            handleFrames decode fs p =
              Returned (p\<lparr>pending := drop (length fs) (pending p),
                         invocations := invocations p @
                           map (\<lambda>((k, r), f). (promise r, settlement_of decode f))
                             (zip (pending p) fs)\<rparr>))
       \<and> (length reqs \<le> maxPending cfg \<longrightarrow> length reqs < 2 ^ 31 \<longrightarrow> length fs \<le> length reqs \<longrightarrow>
            (\<exists>p'. handleFrames decode fs (sends reqs (new_RequestPipeline cfg)) = Returned p'
                \<and> invocations p' =
                    map (\<lambda>(i, f). (i, settlement_of decode f)) (zip [0..<length fs] fs)
                \<and> map (promise \<circ> snd) (pending p') = [length fs..<length reqs]))
       \<and> (length (pending p) < maxPending (config p) \<longrightarrow>
            nextSequenceId (sequenceId p) \<notin> fst ` set (pending p) \<longrightarrow>
            pending (snd (send frame opc now p)) =
              pending p @ [(nextSequenceId (sequenceId p),
                            \<lparr>promise = promises p, opcode = opc, timestamp = now\<rparr>)])"
proof -
  let ?P = "sends reqs (new_RequestPipeline cfg)"
  let ?g = "settlement_of decode"
  have fresh: "\<exists>p'. handleFrames decode fs ?P = Returned p'
                \<and> invocations p' = map (\<lambda>(i, f). (i, ?g f)) (zip [0..<length fs] fs)
                \<and> map (promise \<circ> snd) (pending p') = [length fs..<length reqs]"
    if a: "length reqs \<le> maxPending cfg" and b: "length reqs < 2 ^ 31"
      and c: "length fs \<le> length reqs"
  proof -
    note sf = sends_fresh[OF a b]
    have d: "distinct (map fst (pending ?P))"
      unfolding sf(6) by (simp add: distinct_map del: upt_Suc)
    have l: "length fs \<le> length (pending ?P)" using c sf(7) by simp
    let ?p' = "?P\<lparr>pending := drop (length fs) (pending ?P),
                  invocations := invocations ?P @
                     map (\<lambda>((k, r), f). (promise r, ?g f)) (zip (pending ?P) fs)\<rparr>"
    have h: "handleFrames decode fs ?P = Returned ?p'"
      using d assms l by (rule handleFrames_fifo)
    have "map (\<lambda>((k, r), f). (promise r, ?g f)) (zip (pending ?P) fs) =
          map (\<lambda>(i, f). (i, ?g f)) (zip (map (promise \<circ> snd) (pending ?P)) fs)"
      by (simp add: zip_map1 case_prod_unfold)
    also have "\<dots> = map (\<lambda>(i, f). (i, ?g f)) (zip [0..<length fs] fs)"
      unfolding sf(5) by (simp only: zip_upt_truncate[OF c])
    finally have i: "invocations ?p' = map (\<lambda>(i, f). (i, ?g f)) (zip [0..<length fs] fs)"
      by (simp add: sf(2))
    have "map (promise \<circ> snd) (drop (length fs) (pending ?P)) =
          drop (length fs) (map (promise \<circ> snd) (pending ?P))"
      by (simp only: drop_map)
    also have "\<dots> = [length fs..<length reqs]"
      unfolding sf(5) by simp
    finally have r: "map (promise \<circ> snd) (pending ?p') = [length fs..<length reqs]"
      by simp
    show ?thesis
      by (rule exI[of _ ?p']) (use h i r in \<open>simp only: simp_thms\<close>)
  qed
  have general: "handleFrames decode fs p =
              Returned (p\<lparr>pending := drop (length fs) (pending p),
                         invocations := invocations p @
                           map (\<lambda>((k, r), f). (promise r, ?g f)) (zip (pending p) fs)\<rparr>)"
    if "distinct (map fst (pending p))" and "length fs \<le> length (pending p)"
    using that(1) assms that(2) by (rule handleFrames_fifo)
  have app: "pending (snd (send frame opc now p)) =
              pending p @ [(nextSequenceId (sequenceId p),
                            \<lparr>promise = promises p, opcode = opc, timestamp = now\<rparr>)]"
    if "length (pending p) < maxPending (config p)"
      and "nextSequenceId (sequenceId p) \<notin> fst ` set (pending p)"
    using that by (simp add: send_accepted Map_set_fresh)
  show ?thesis
  proof (intro conjI impI)
    assume "distinct (map fst (pending p))" and "length fs \<le> length (pending p)"
    then show "handleFrames decode fs p =
              Returned (p\<lparr>pending := drop (length fs) (pending p),
                         invocations := invocations p @
                           map (\<lambda>((k, r), f). (promise r, ?g f)) (zip (pending p) fs)\<rparr>)"
      by (rule general)
  next
    assume "length reqs \<le> maxPending cfg" and "length reqs < 2 ^ 31" and "length fs \<le> length reqs"
    then show "\<exists>p'. handleFrames decode fs ?P = Returned p'
                \<and> invocations p' = map (\<lambda>(i, f). (i, ?g f)) (zip [0..<length fs] fs)
                \<and> map (promise \<circ> snd) (pending p') = [length fs..<length reqs]"
      by (rule fresh)
  next
    assume "length (pending p) < maxPending (config p)"
      and "nextSequenceId (sequenceId p) \<notin> fst ` set (pending p)"
    then show "pending (snd (send frame opc now p)) =
              pending p @ [(nextSequenceId (sequenceId p),
                            \<lparr>promise = promises p, opcode = opc, timestamp = now\<rparr>)]"
      by (rule app)
  qed
qed


theorem fifo_resolution_witness:
  "well_formed_response [0xf0, 1] \<and> well_formed_response [0xf1, 0x10, 2, 0, 0x68, 0x69]
   \<and> well_formed_response [0xf0, 3]
   \<and> handleFrames ascii_text [[0xf0, 1], [0xf1, 0x10, 2, 0, 0x68, 0x69], [0xf0, 3]]
       (sends [([1, 0, 0, 0, 0x40], 0x40, 5), ([1, 0, 0, 0, 0x41], 0x41, 6),
               ([1, 0, 0, 0, 0x42], 0x42, 7)] (new_RequestPipeline DEFAULT_CONFIG)) =
     Returned ((sends [([1, 0, 0, 0, 0x40], 0x40, 5), ([1, 0, 0, 0, 0x41], 0x41, 6),
                       ([1, 0, 0, 0, 0x42], 0x42, 7)] (new_RequestPipeline DEFAULT_CONFIG))
       \<lparr>pending := [],
        invocations := [(0, Resolve [1]),
                        (1, Reject (MindFryError 0x10 ''[LINEAGE_NOT_FOUND] hi'')),
                        (2, Resolve [3])]\<rparr>)
   \<and> pending (snd (send [1, 0, 0, 0, 0x40] 0x40 5 (new_RequestPipeline DEFAULT_CONFIG))) =
       [(1, \<lparr>promise = 0, opcode = 0x40, timestamp = 5\<rparr>)]"
  using fifo_resolution [where fs = "[[0xf0, 1], [0xf1, 0x10, 2, 0, 0x68, 0x69], [0xf0, 3]]"
      and decode = ascii_text
      and p = "sends [([1, 0, 0, 0, 0x40], 0x40, 5), ([1, 0, 0, 0, 0x41], 0x41, 6),
               ([1, 0, 0, 0, 0x42], 0x42, 7)] (new_RequestPipeline DEFAULT_CONFIG)"
      and reqs = "[([1, 0, 0, 0, 0x40], 0x40, 5), ([1, 0, 0, 0, 0x41], 0x41, 6),
               ([1, 0, 0, 0, 0x42], 0x42, 7)]"
      and cfg = DEFAULT_CONFIG]
    fifo_resolution [where fs = "[[0xf0, 1]]" and decode = ascii_text
      and p = "new_RequestPipeline DEFAULT_CONFIG" and reqs = "[]" and cfg = DEFAULT_CONFIG
      and frame = "[1, 0, 0, 0, 0x40]" and opc = "0x40" and now = 5]
  by (simp add: send_def new_RequestPipeline_def DEFAULT_CONFIG_def new_FrameDecoder_def
      Map_set_def Let_def nextSequenceId_def js_bitand_def well_formed_response_def
      settlement_of_def RESPONSE_ERROR_def ErrorCode_name_def ascii_text_hi)

text \<open>
  Two calls of \<open>send\<close>, then a frame of length zero and a success frame: the first frame
  settles nothing, and the second frame settles the first call, not the second.
\<close>

theorem fifo_empty_frame_counterexample:
  "handleFrames ascii_text [[], [0xf0, 7]]
     (sends [([1, 0, 0, 0, 0x40], 0x40, 5), ([1, 0, 0, 0, 0x41], 0x41, 6)]
        (new_RequestPipeline DEFAULT_CONFIG)) =
   Returned ((sends [([1, 0, 0, 0, 0x40], 0x40, 5), ([1, 0, 0, 0, 0x41], 0x41, 6)]
                (new_RequestPipeline DEFAULT_CONFIG))
     \<lparr>pending := [(2, \<lparr>promise = 1, opcode = 0x41, timestamp = 6\<rparr>)],
      invocations := [(0, Resolve [7])],
      warnings := [''Received empty frame'']\<rparr>)"
  by (simp add: send_def new_RequestPipeline_def DEFAULT_CONFIG_def new_FrameDecoder_def
      Map_set_def Map_delete_def Let_def nextSequenceId_def js_bitand_def handleFrame_def
      RESPONSE_ERROR_def)

subsection \<open>Frames without a payload\<close>




subsection \<open>Settling every request once: the invariant\<close>

lemma nth_sequenceId_0: "nth_sequenceId 0 = 0"
  by (simp add: nth_sequenceId_def)

lemma nextSequenceId_nth: "nextSequenceId (nth_sequenceId m) = nth_sequenceId (Suc m)"
  by (simp add: nextSequenceId_sint nth_sequenceId_def add.commute)

lemma nth_sequenceId_inj:
  assumes "i < 2 ^ 32" and "j < 2 ^ 32" and "nth_sequenceId i = nth_sequenceId j"
  shows "i = j"
proof -
  have "(word_of_nat i :: 32 word) = word_of_nat j"
    using assms(3) unfolding nth_sequenceId_def by (rule signed_word_eqI)
  then have "take_bit 32 i = take_bit 32 j"
    by (simp add: word_of_nat_eq_iff)
  then show ?thesis
    using assms(1,2) by (simp add: take_bit_nat_eq_self)
qed

lemma invariant_new: "invariant (new_RequestPipeline cfg)"
  by (simp add: invariant_def pipeline_inv_def new_RequestPipeline_def nth_sequenceId_0)

lemma invoked_append [simp]: "invoked pr (xs @ ys) = invoked pr xs + invoked pr ys"
  by (simp add: invoked_def)

lemma invoked_Nil [simp]: "invoked pr [] = 0"
  by (simp add: invoked_def)

lemma invoked_single [simp]: "invoked pr [(q, s)] = (if q = pr then 1 else 0)"
  by (simp add: invoked_def)

lemma invoked_zero_iff: "invoked pr calls = 0 \<longleftrightarrow> pr \<notin> fst ` set calls"
  by (simp add: invoked_def count_list_0_iff)


text \<open>What both listeners preserve, the loop of \<open>push\<close> preserves.\<close>

lemma push_loop_preserves:
  assumes "\<And>payload s s'. P s \<Longrightarrow> ef payload s = Returned s' \<Longrightarrow> P s'"
    and "\<And>e s s'. P s \<Longrightarrow> ee e s = Returned s' \<Longrightarrow> P s'"
    and "P s" and "push_loop ef ee m buf s = Returned (buf', s')"
  shows "P s'"
  using assms
proof (induction ef ee m buf s rule: push_loop.induct)
  case (1 emitFrame emitError maxFS buf s)
  note pf = "1.prems"(1) and pe = "1.prems"(2) and Ps = "1.prems"(3) and run = "1.prems"(4)
  show ?case
  proof (cases "4 \<le> length buf")
    case False
    then show ?thesis using Ps run by (simp add: push_loop.simps)
  next
    case long: True
    show ?thesis
    proof (cases "maxFS < readUInt32LE buf")
      case True
      then have "push_loop emitFrame emitError maxFS buf s =
        (case emitError (FrameTooLarge (readUInt32LE buf) maxFS) s of
           Thrown e s' \<Rightarrow> Thrown e (buf, s')
         | Returned s' \<Rightarrow> Returned ([], s'))"
        using long by (simp add: push_loop_oversized)
      then show ?thesis
        using Ps run pe by (auto split: outcome.splits)
    next
      case small: False
      show ?thesis
      proof (cases "length buf < 4 + readUInt32LE buf")
        case True
        then show ?thesis using Ps run long small by (simp add: push_loop.simps)
      next
        case False
        have unf: "push_loop emitFrame emitError maxFS buf s =
          (case emitFrame (take (readUInt32LE buf) (drop 4 buf)) s of
             Thrown e s' \<Rightarrow> Thrown e (buf, s')
           | Returned s' \<Rightarrow>
               push_loop emitFrame emitError maxFS (drop (4 + readUInt32LE buf) buf) s')"
          using long small False
          by (subst push_loop.simps) (simp add: Let_def cong: outcome.case_cong)
        then obtain s1 where s1: "emitFrame (take (readUInt32LE buf) (drop 4 buf)) s = Returned s1"
          and rest: "push_loop emitFrame emitError maxFS (drop (4 + readUInt32LE buf) buf) s1 =
                       Returned (buf', s')"
          using run by (auto split: outcome.splits)
        have "P s1" using Ps s1 by (rule pf)
        then show ?thesis
          using "1.IH"[OF long refl small False s1 pf pe] rest by simp
      qed
    qed
  qed
qed


text \<open>Counting the calls of continuations.\<close>

lemma count_list_distinct:
  "distinct xs \<Longrightarrow> count_list xs a = (if a \<in> set xs then 1 else 0)"
  by (induction xs) auto

lemma invoked_map:
  assumes "\<forall>x. fst (g x) = promise (snd x)"
  shows "invoked pr (map g xs) = count_list (map (promise \<circ> snd) xs) pr"
proof -
  have "fst (g x) = (promise \<circ> snd) x" for x
    using assms by (simp del: split_paired_All)
  then have "map fst (map g xs) = map (promise \<circ> snd) xs"
    by (simp only: map_map comp_def)
  then show ?thesis by (simp only: invoked_def)
qed

lemma invoked_removed:
  assumes "distinct (map (promise \<circ> snd) pend)" and "\<forall>x. fst (g x) = promise (snd x)"
  shows "invoked pr (map g (filter Q pend)) =
           (if pr \<in> (promise \<circ> snd) ` set (filter Q pend) then 1 else 0)"
proof -
  have "distinct (map (promise \<circ> snd) (filter Q pend))"
    using assms(1) by (rule distinct_map_filter)
  then have "count_list (map (promise \<circ> snd) (filter Q pend)) pr =
           (if pr \<in> set (map (promise \<circ> snd) (filter Q pend)) then 1 else 0)"
    by (rule count_list_distinct)
  then show ?thesis
    by (simp only: invoked_map[OF assms(2)] set_map)
qed

text \<open>The clauses of the invariant, one by one.\<close>

lemma pipeline_invI:
  assumes "\<exists>m \<le> n. s = nth_sequenceId m \<and>
        (\<forall>k \<in> fst ` set pend \<union> fst ` set w. \<exists>j. 1 \<le> j \<and> j \<le> m \<and> k = nth_sequenceId j)"
    and "distinct (map fst pend)"
    and "distinct (map (promise \<circ> snd) pend)"
    and "distinct (map snd w)"
    and "\<forall>x \<in> set pend. promise (snd x) < n \<and> invoked (promise (snd x)) calls = 0"
    and "\<forall>c \<in> set w. snd c < n \<and> invoked (snd c) calls \<le> 1 \<and>
           (\<forall>x \<in> set pend. (fst x = fst c) = (promise (snd x) = snd c))"
    and "\<forall>pr < n. pr \<notin> (promise \<circ> snd) ` set pend \<longrightarrow> 1 \<le> invoked pr calls \<and> invoked pr calls \<le> 2"
    and "\<forall>pr \<in> fst ` set calls. pr < n"
  shows "pipeline_inv s pend w calls n"
  unfolding pipeline_inv_def using assms by (intro conjI)

lemma pipeline_invD:
  assumes "pipeline_inv s pend w calls n"
  shows "\<exists>m \<le> n. s = nth_sequenceId m \<and>
        (\<forall>k \<in> fst ` set pend \<union> fst ` set w. \<exists>j. 1 \<le> j \<and> j \<le> m \<and> k = nth_sequenceId j)"
    and "distinct (map fst pend)"
    and "distinct (map (promise \<circ> snd) pend)"
    and "distinct (map snd w)"
    and "\<forall>x \<in> set pend. promise (snd x) < n \<and> invoked (promise (snd x)) calls = 0"
    and "\<forall>c \<in> set w. snd c < n \<and> invoked (snd c) calls \<le> 1 \<and>
           (\<forall>x \<in> set pend. (fst x = fst c) = (promise (snd x) = snd c))"
    and "\<forall>pr < n. pr \<notin> (promise \<circ> snd) ` set pend \<longrightarrow> 1 \<le> invoked pr calls \<and> invoked pr calls \<le> 2"
    and "\<forall>pr \<in> fst ` set calls. pr < n"
proof -
  note c = assms[unfolded pipeline_inv_def]
  show "\<exists>m \<le> n. s = nth_sequenceId m \<and>
        (\<forall>k \<in> fst ` set pend \<union> fst ` set w. \<exists>j. 1 \<le> j \<and> j \<le> m \<and> k = nth_sequenceId j)"
    using c by (elim conjE)
  show "distinct (map fst pend)" using c by (elim conjE)
  show "distinct (map (promise \<circ> snd) pend)" using c by (elim conjE)
  show "distinct (map snd w)" using c by (elim conjE)
  show "\<forall>x \<in> set pend. promise (snd x) < n \<and> invoked (promise (snd x)) calls = 0"
    using c by (elim conjE)
  show "\<forall>c \<in> set w. snd c < n \<and> invoked (snd c) calls \<le> 1 \<and>
           (\<forall>x \<in> set pend. (fst x = fst c) = (promise (snd x) = snd c))"
    using c by (elim conjE)
  show "\<forall>pr < n. pr \<notin> (promise \<circ> snd) ` set pend \<longrightarrow> 1 \<le> invoked pr calls \<and> invoked pr calls \<le> 2"
    using c by (elim conjE)
  show "\<forall>pr \<in> fst ` set calls. pr < n" using c by (elim conjE)
qed

text \<open>
  Removing the entries that satisfy \<open>Q\<close> and calling one continuation of each keeps the
  invariant: this is what a frame, the timeout sweep, a broad failure and \<open>destroy\<close> do.
\<close>

lemma pipeline_inv_settle:
  assumes inv: "pipeline_inv s pend w calls n"
    and g: "\<forall>x. fst (g x) = promise (snd x)"
  shows "pipeline_inv s (filter (\<lambda>x. \<not> Q x) pend) w (calls @ map g (filter Q pend)) n"
proof -
  let ?keep = "filter (\<lambda>x. \<not> Q x) pend"
  let ?gone = "filter Q pend"
  let ?calls = "calls @ map g ?gone"
  have ids: "\<exists>m \<le> n. s = nth_sequenceId m \<and>
        (\<forall>k \<in> fst ` set pend \<union> fst ` set w. \<exists>j. 1 \<le> j \<and> j \<le> m \<and> k = nth_sequenceId j)"
    and dk: "distinct (map fst pend)"
    and dp: "distinct (map (promise \<circ> snd) pend)"
    and dw: "distinct (map snd w)"
    and pe: "\<forall>x \<in> set pend. promise (snd x) < n \<and> invoked (promise (snd x)) calls = 0"
    and wc: "\<forall>c \<in> set w. snd c < n \<and> invoked (snd c) calls \<le> 1 \<and>
           (\<forall>x \<in> set pend. (fst x = fst c) = (promise (snd x) = snd c))"
    and dn: "\<forall>pr < n. pr \<notin> (promise \<circ> snd) ` set pend \<longrightarrow> 1 \<le> invoked pr calls \<and> invoked pr calls \<le> 2"
    and iv: "\<forall>pr \<in> fst ` set calls. pr < n"
    using pipeline_invD[OF inv] by -
  note rem = invoked_removed[OF dp g, of _ Q]
  have inj: "inj_on (promise \<circ> snd) (set pend)"
    using dp by (simp add: distinct_map)
  have 1: "\<exists>m \<le> n. s = nth_sequenceId m \<and>
        (\<forall>k \<in> fst ` set ?keep \<union> fst ` set w. \<exists>j. 1 \<le> j \<and> j \<le> m \<and> k = nth_sequenceId j)"
  proof -
    obtain m where m: "m \<le> n" "s = nth_sequenceId m"
      "\<forall>k \<in> fst ` set pend \<union> fst ` set w. \<exists>j. 1 \<le> j \<and> j \<le> m \<and> k = nth_sequenceId j"
      using ids by blast
    have "fst ` set ?keep \<union> fst ` set w \<subseteq> fst ` set pend \<union> fst ` set w" by auto
    then have "\<forall>k \<in> fst ` set ?keep \<union> fst ` set w. \<exists>j. 1 \<le> j \<and> j \<le> m \<and> k = nth_sequenceId j"
      using m(3) by blast
    then show ?thesis using m(1,2) by blast
  qed
  have 2: "distinct (map fst ?keep)" using dk by (rule distinct_map_filter)
  have 3: "distinct (map (promise \<circ> snd) ?keep)" using dp by (rule distinct_map_filter)
  have 5: "\<forall>x \<in> set ?keep. promise (snd x) < n \<and> invoked (promise (snd x)) ?calls = 0"
  proof
    fix x assume x: "x \<in> set ?keep"
    then have xp: "x \<in> set pend" and nq: "\<not> Q x" by simp_all
    have "promise (snd x) \<notin> (promise \<circ> snd) ` set ?gone"
    proof
      assume "promise (snd x) \<in> (promise \<circ> snd) ` set ?gone"
      then obtain y where y: "y \<in> set pend" "Q y" "promise (snd y) = promise (snd x)" by auto
      then have "y = x" using inj_onD[OF inj, of y x] xp by simp
      then show False using y(2) nq by simp
    qed
    then show "promise (snd x) < n \<and> invoked (promise (snd x)) ?calls = 0"
      using pe xp by (simp add: rem)
  qed
  have 6: "\<forall>c \<in> set w. snd c < n \<and> invoked (snd c) ?calls \<le> 1 \<and>
           (\<forall>x \<in> set ?keep. (fst x = fst c) = (promise (snd x) = snd c))"
  proof
    fix c assume c: "c \<in> set w"
    have "invoked (snd c) ?calls \<le> 1"
    proof (cases "snd c \<in> (promise \<circ> snd) ` set ?gone")
      case True
      then have "snd c \<in> (promise \<circ> snd) ` set pend" by auto
      then have "invoked (snd c) calls = 0" using pe by auto
      then show ?thesis by (simp add: rem)
    next
      case False
      then show ?thesis using wc c by (simp add: rem)
    qed
    then show "snd c < n \<and> invoked (snd c) ?calls \<le> 1 \<and>
           (\<forall>x \<in> set ?keep. (fst x = fst c) = (promise (snd x) = snd c))"
      using wc c by simp
  qed
  have 7: "\<forall>pr < n. pr \<notin> (promise \<circ> snd) ` set ?keep \<longrightarrow>
              1 \<le> invoked pr ?calls \<and> invoked pr ?calls \<le> 2"
  proof (intro allI impI)
    fix pr assume pr: "pr < n" and np: "pr \<notin> (promise \<circ> snd) ` set ?keep"
    show "1 \<le> invoked pr ?calls \<and> invoked pr ?calls \<le> 2"
    proof (cases "pr \<in> (promise \<circ> snd) ` set ?gone")
      case True
      then have "pr \<in> (promise \<circ> snd) ` set pend" by auto
      then have "invoked pr calls = 0" using pe by auto
      then show ?thesis using True by (simp add: rem)
    next
      case False
      then have "pr \<notin> (promise \<circ> snd) ` set pend" using np by auto
      then show ?thesis using dn pr False by (simp add: rem)
    qed
  qed
  have 8: "\<forall>pr \<in> fst ` set ?calls. pr < n"
  proof
    fix pr assume "pr \<in> fst ` set ?calls"
    then consider "pr \<in> fst ` set calls" | "pr \<in> fst ` g ` set ?gone" by auto
    then show "pr < n"
    proof cases
      case 1
      then show ?thesis using iv by blast
    next
      case 2
      then obtain y where "y \<in> set pend" "pr = promise (snd y)" using g by auto
      then show ?thesis using pe by simp
    qed
  qed
  show ?thesis
    using 1 2 3 dw 5 6 7 8 by (rule pipeline_invI)
qed


text \<open>The socket calls a write callback: it is no longer outstanding.\<close>

lemma set_remove_nth: "set (remove_nth i xs) \<subseteq> set xs"
  unfolding remove_nth_def by (auto dest: in_set_takeD in_set_dropD)

lemma distinct_map_remove_nth:
  assumes "distinct (map f xs)"
  shows "distinct (map f (remove_nth i xs))"
proof (cases "i < length xs")
  case True
  then have xs: "xs = take i xs @ (xs ! i) # drop (Suc i) xs"
    by (rule id_take_nth_drop)
  have "distinct (map f (take i xs) @ f (xs ! i) # map f (drop (Suc i) xs))"
    using assms by (subst (asm) xs) simp
  then show ?thesis unfolding remove_nth_def by auto
next
  case False
  then show ?thesis using assms by (simp add: remove_nth_def)
qed

lemma remove_nth_other:
  assumes "distinct (map f xs)" and "i < length xs" and "c \<in> set (remove_nth i xs)"
  shows "f c \<noteq> f (xs ! i)"
proof -
  have xs: "xs = take i xs @ (xs ! i) # drop (Suc i) xs"
    using assms(2) by (rule id_take_nth_drop)
  have "distinct (map f (take i xs) @ f (xs ! i) # map f (drop (Suc i) xs))"
    using assms(1) by (subst (asm) xs) simp
  then have "f (xs ! i) \<notin> set (map f (take i xs)) \<union> set (map f (drop (Suc i) xs))"
    by auto
  moreover have "f c \<in> set (map f (take i xs)) \<union> set (map f (drop (Suc i) xs))"
    using assms(3) unfolding remove_nth_def by auto
  ultimately show ?thesis by metis
qed

lemma pipeline_inv_callback_done:
  assumes inv: "pipeline_inv s pend w calls n"
  shows "pipeline_inv s pend (remove_nth i w) calls n"
proof -
  note d = pipeline_invD[OF inv]
  have sub: "set (remove_nth i w) \<subseteq> set w" by (rule set_remove_nth)
  have 1: "\<exists>m \<le> n. s = nth_sequenceId m \<and>
        (\<forall>k \<in> fst ` set pend \<union> fst ` set (remove_nth i w).
            \<exists>j. 1 \<le> j \<and> j \<le> m \<and> k = nth_sequenceId j)"
  proof -
    obtain m where m: "m \<le> n" "s = nth_sequenceId m"
      "\<forall>k \<in> fst ` set pend \<union> fst ` set w. \<exists>j. 1 \<le> j \<and> j \<le> m \<and> k = nth_sequenceId j"
      using d(1) by blast
    have "fst ` set pend \<union> fst ` set (remove_nth i w) \<subseteq> fst ` set pend \<union> fst ` set w"
      using sub by auto
    then have "\<forall>k \<in> fst ` set pend \<union> fst ` set (remove_nth i w).
                 \<exists>j. 1 \<le> j \<and> j \<le> m \<and> k = nth_sequenceId j"
      using m(3) by blast
    then show ?thesis using m(1,2) by blast
  qed
  have 4: "distinct (map snd (remove_nth i w))"
    using d(4) by (rule distinct_map_remove_nth)
  have 6: "\<forall>c \<in> set (remove_nth i w). snd c < n \<and> invoked (snd c) calls \<le> 1 \<and>
           (\<forall>x \<in> set pend. (fst x = fst c) = (promise (snd x) = snd c))"
    using d(6) sub by blast
  show ?thesis
    using 1 d(2,3) 4 d(5) 6 d(7,8) by (rule pipeline_invI)
qed

lemma pipeline_inv_late_reject:
  assumes inv: "pipeline_inv s pend w calls n"
    and i: "i < length w" and np: "snd (w ! i) \<notin> (promise \<circ> snd) ` set pend"
  shows "pipeline_inv s pend (remove_nth i w) (calls @ [(snd (w ! i), x)]) n"
proof -
  note d = pipeline_invD[OF pipeline_inv_callback_done[OF inv, of i]]
  note d0 = pipeline_invD[OF inv]
  let ?pr = "snd (w ! i)"
  let ?calls = "calls @ [(?pr, x)]"
  have mem: "w ! i \<in> set w" using i by simp
  then have prn: "?pr < n" and le1: "invoked ?pr calls \<le> 1" using d0(6) by blast+
  have ge1: "1 \<le> invoked ?pr calls" using d0(7) prn np by blast
  have 5: "\<forall>y \<in> set pend. promise (snd y) < n \<and> invoked (promise (snd y)) ?calls = 0"
  proof
    fix y assume y: "y \<in> set pend"
    then have "promise (snd y) \<noteq> ?pr" using np by force
    then show "promise (snd y) < n \<and> invoked (promise (snd y)) ?calls = 0"
      using d0(5) y by simp
  qed
  have 6: "\<forall>c \<in> set (remove_nth i w). snd c < n \<and> invoked (snd c) ?calls \<le> 1 \<and>
           (\<forall>x \<in> set pend. (fst x = fst c) = (promise (snd x) = snd c))"
  proof
    fix c assume c: "c \<in> set (remove_nth i w)"
    have "snd c \<noteq> ?pr" using d0(4) i c by (rule remove_nth_other)
    then show "snd c < n \<and> invoked (snd c) ?calls \<le> 1 \<and>
           (\<forall>x \<in> set pend. (fst x = fst c) = (promise (snd x) = snd c))"
      using d(6) c by simp
  qed
  have 7: "\<forall>pr < n. pr \<notin> (promise \<circ> snd) ` set pend \<longrightarrow>
             1 \<le> invoked pr ?calls \<and> invoked pr ?calls \<le> 2"
  proof (intro allI impI)
    fix pr assume pr: "pr < n" "pr \<notin> (promise \<circ> snd) ` set pend"
    show "1 \<le> invoked pr ?calls \<and> invoked pr ?calls \<le> 2"
    proof (cases "pr = ?pr")
      case True
      then show ?thesis using le1 ge1 by simp
    next
      case False
      then show ?thesis using d0(7) pr by simp
    qed
  qed
  have 8: "\<forall>pr \<in> fst ` set ?calls. pr < n"
    using d0(8) prn by auto
  show ?thesis
    using d(1,2,3,4) 5 6 7 8 by (rule pipeline_invI)
qed


text \<open>A call of \<open>send\<close>, rejected or accepted.\<close>

lemma pipeline_inv_send_rejected:
  assumes inv: "pipeline_inv s pend w calls n"
  shows "pipeline_inv s pend w (calls @ [(n, x)]) (Suc n)"
proof -
  note d = pipeline_invD[OF inv]
  let ?calls = "calls @ [(n, x)]"
  have zero: "invoked n calls = 0"
    using d(8) by (auto simp: invoked_zero_iff)
  have 1: "\<exists>m \<le> Suc n. s = nth_sequenceId m \<and>
        (\<forall>k \<in> fst ` set pend \<union> fst ` set w. \<exists>j. 1 \<le> j \<and> j \<le> m \<and> k = nth_sequenceId j)"
  proof -
    obtain m where m: "m \<le> n" "s = nth_sequenceId m"
      "\<forall>k \<in> fst ` set pend \<union> fst ` set w. \<exists>j. 1 \<le> j \<and> j \<le> m \<and> k = nth_sequenceId j"
      using d(1) by blast
    have "m \<le> Suc n" using m(1) by simp
    then show ?thesis using m(2,3) by blast
  qed
  have 5: "\<forall>y \<in> set pend. promise (snd y) < Suc n \<and> invoked (promise (snd y)) ?calls = 0"
  proof
    fix y assume y: "y \<in> set pend"
    then have "promise (snd y) < n" "invoked (promise (snd y)) calls = 0" using d(5) by blast+
    then show "promise (snd y) < Suc n \<and> invoked (promise (snd y)) ?calls = 0" by simp
  qed
  have 6: "\<forall>c \<in> set w. snd c < Suc n \<and> invoked (snd c) ?calls \<le> 1 \<and>
           (\<forall>x \<in> set pend. (fst x = fst c) = (promise (snd x) = snd c))"
  proof
    fix c assume c: "c \<in> set w"
    then have "snd c < n" "invoked (snd c) calls \<le> 1"
      "\<forall>x \<in> set pend. (fst x = fst c) = (promise (snd x) = snd c)" using d(6) by blast+
    then show "snd c < Suc n \<and> invoked (snd c) ?calls \<le> 1 \<and>
           (\<forall>x \<in> set pend. (fst x = fst c) = (promise (snd x) = snd c))" by simp
  qed
  have 7: "\<forall>pr < Suc n. pr \<notin> (promise \<circ> snd) ` set pend \<longrightarrow>
             1 \<le> invoked pr ?calls \<and> invoked pr ?calls \<le> 2"
  proof (intro allI impI)
    fix pr assume pr: "pr < Suc n" "pr \<notin> (promise \<circ> snd) ` set pend"
    show "1 \<le> invoked pr ?calls \<and> invoked pr ?calls \<le> 2"
    proof (cases "pr = n")
      case True
      then show ?thesis using zero by simp
    next
      case False
      then have "pr < n" using pr(1) by simp
      then show ?thesis using d(7) pr(2) False by simp
    qed
  qed
  have 8: "\<forall>pr \<in> fst ` set ?calls. pr < Suc n"
    using d(8) by auto
  show ?thesis
    using 1 d(2,3,4) 5 6 7 8 by (rule pipeline_invI)
qed

lemma pipeline_inv_send_accepted:
  assumes inv: "pipeline_inv s pend w calls n" and small: "Suc n < 2 ^ 32"
  shows "Map_set (nextSequenceId s) r pend = pend @ [(nextSequenceId s, r)]"
    and "promise r = n \<Longrightarrow>
         pipeline_inv (nextSequenceId s) (pend @ [(nextSequenceId s, r)])
           (w @ [(nextSequenceId s, n)]) calls (Suc n)"
proof -
  note d = pipeline_invD[OF inv]
  obtain m where m: "m \<le> n" "s = nth_sequenceId m"
    "\<forall>k \<in> fst ` set pend \<union> fst ` set w. \<exists>j. 1 \<le> j \<and> j \<le> m \<and> k = nth_sequenceId j"
    using d(1) by blast
  let ?k = "nextSequenceId s"
  have k: "?k = nth_sequenceId (Suc m)" by (simp add: m(2) nextSequenceId_nth)
  have fresh: "?k \<notin> fst ` set pend \<union> fst ` set w"
  proof
    assume "?k \<in> fst ` set pend \<union> fst ` set w"
    then obtain j where j: "1 \<le> j" "j \<le> m" "?k = nth_sequenceId j" using m(3) by blast
    have "Suc m < 2 ^ 32" using m(1) small by simp
    moreover have "j < 2 ^ 32" using j(2) m(1) small by simp
    ultimately have "Suc m = j" using j(3) unfolding k by (rule nth_sequenceId_inj)
    then show False using j(2) by simp
  qed
  then show app: "Map_set ?k r pend = pend @ [(?k, r)]" by (simp add: Map_set_fresh)
  assume r: "promise r = n"
  let ?pend = "pend @ [(?k, r)]" and ?w = "w @ [(?k, n)]"
  have zero: "invoked n calls = 0"
    using d(8) by (auto simp: invoked_zero_iff)
  have pl: "\<forall>y \<in> set pend. promise (snd y) < n" using d(5) by blast
  have wl: "\<forall>c \<in> set w. snd c < n" using d(6) by blast
  have 1: "\<exists>m' \<le> Suc n. ?k = nth_sequenceId m' \<and>
        (\<forall>k \<in> fst ` set ?pend \<union> fst ` set ?w. \<exists>j. 1 \<le> j \<and> j \<le> m' \<and> k = nth_sequenceId j)"
  proof -
    have a: "Suc m \<le> Suc n" using m(1) by simp
    have b: "\<forall>x \<in> fst ` set ?pend \<union> fst ` set ?w. \<exists>j. 1 \<le> j \<and> j \<le> Suc m \<and> x = nth_sequenceId j"
    proof
      fix x assume "x \<in> fst ` set ?pend \<union> fst ` set ?w"
      then consider "x = ?k" | "x \<in> fst ` set pend \<union> fst ` set w" by auto
      then show "\<exists>j. 1 \<le> j \<and> j \<le> Suc m \<and> x = nth_sequenceId j"
      proof cases
        case 1
        then show ?thesis using k by (intro exI[of _ "Suc m"]) simp
      next
        case 2
        then obtain j where "1 \<le> j" "j \<le> m" "x = nth_sequenceId j" using m(3) by blast
        then show ?thesis by (intro exI[of _ j]) simp
      qed
    qed
    from a k b show ?thesis by blast
  qed
  have 2: "distinct (map fst ?pend)" using d(2) fresh by simp
  have 3: "distinct (map (promise \<circ> snd) ?pend)"
    using d(3) pl r by (auto simp: comp_def)
  have 4: "distinct (map snd ?w)" using d(4) wl by auto
  have 5: "\<forall>y \<in> set ?pend. promise (snd y) < Suc n \<and> invoked (promise (snd y)) calls = 0"
  proof
    fix y assume "y \<in> set ?pend"
    then consider "y = (?k, r)" | "y \<in> set pend" by auto
    then show "promise (snd y) < Suc n \<and> invoked (promise (snd y)) calls = 0"
    proof cases
      case 1
      then show ?thesis using r zero by simp
    next
      case 2
      then have "promise (snd y) < n" "invoked (promise (snd y)) calls = 0" using d(5) by blast+
      then show ?thesis by simp
    qed
  qed
  have 6: "\<forall>c \<in> set ?w. snd c < Suc n \<and> invoked (snd c) calls \<le> 1 \<and>
           (\<forall>x \<in> set ?pend. (fst x = fst c) = (promise (snd x) = snd c))"
  proof
    fix c assume "c \<in> set ?w"
    then consider "c = (?k, n)" | "c \<in> set w" by auto
    then show "snd c < Suc n \<and> invoked (snd c) calls \<le> 1 \<and>
           (\<forall>x \<in> set ?pend. (fst x = fst c) = (promise (snd x) = snd c))"
    proof cases
      case 1
      have "(fst x = ?k) = (promise (snd x) = n)" if xin: "x \<in> set ?pend" for x
      proof -
        consider "x = (?k, r)" | "x \<in> set pend" using xin by auto
        then show ?thesis
        proof cases
          case 1
          then show ?thesis using r by simp
        next
          case 2
          then have "fst x \<noteq> ?k" using fresh by force
          moreover have "promise (snd x) \<noteq> n" using pl 2 by force
          ultimately show ?thesis by simp
        qed
      qed
      then show ?thesis using 1 zero by simp
    next
      case 2
      then have c: "snd c < n" "invoked (snd c) calls \<le> 1"
        "\<forall>x \<in> set pend. (fst x = fst c) = (promise (snd x) = snd c)" using d(6) by blast+
      have "fst c \<noteq> ?k" using fresh 2 by force
      then have "(fst x = fst c) = (promise (snd x) = snd c)" if "x \<in> set ?pend" for x
        using that c(1,3) r by auto
      then show ?thesis using c(1,2) by simp
    qed
  qed
  have 7: "\<forall>pr < Suc n. pr \<notin> (promise \<circ> snd) ` set ?pend \<longrightarrow>
             1 \<le> invoked pr calls \<and> invoked pr calls \<le> 2"
  proof (intro allI impI)
    fix pr assume pr: "pr < Suc n" "pr \<notin> (promise \<circ> snd) ` set ?pend"
    then have "pr \<noteq> n" using r by auto
    then have "pr < n" using pr(1) by simp
    moreover have "pr \<notin> (promise \<circ> snd) ` set pend" using pr(2) by auto
    ultimately show "1 \<le> invoked pr calls \<and> invoked pr calls \<le> 2" using d(7) by blast
  qed
  have 8: "\<forall>pr \<in> fst ` set calls. pr < Suc n"
    using d(8) by auto
  show "pipeline_inv ?k ?pend ?w calls (Suc n)"
    using 1 2 3 4 5 6 7 8 by (rule pipeline_invI)
qed


subsection \<open>Every operation keeps the invariant\<close>

lemma Map_delete_filter: "Map_delete k m = filter (\<lambda>x. \<not> fst x = k) m"
  by (simp add: Map_delete_def case_prod_unfold)

lemma notin_imageD: "a \<notin> f ` S \<Longrightarrow> y \<in> S \<Longrightarrow> f y \<noteq> a"
  by blast

lemma filter_key_unique:
  assumes "distinct (map fst m)" and "x \<in> set m"
  shows "filter (\<lambda>y. fst y = fst x) m = [x]"
  using assms
proof (induction m)
  case Nil
  then show ?case by simp
next
  case (Cons a m)
  show ?case
  proof (cases "a = x")
    case True
    have "fst x \<notin> fst ` set m" using Cons.prems(1) True by simp
    then have "\<forall>y \<in> set m. fst y \<noteq> fst x" by (blast dest: notin_imageD)
    then have "filter (\<lambda>y. fst y = fst x) m = []" by (simp add: filter_empty_conv)
    then show ?thesis using True by simp
  next
    case False
    then have xm: "x \<in> set m" using Cons.prems(2) by simp
    moreover have "fst a \<notin> fst ` set m" using Cons.prems(1) by simp
    ultimately have "fst a \<noteq> fst x" by (metis imageI)
    then show ?thesis using Cons.IH xm Cons.prems(1) by simp
  qed
qed

lemma invariant_send:
  assumes "invariant p" and "Suc (promises p) < 2 ^ 32"
  shows "invariant (snd (send frame opc now p))"
proof (cases "maxPending (config p) \<le> length (pending p)")
  case True
  have "pipeline_inv (sequenceId p) (pending p) (write_callbacks p)
          (invocations p @ [(promises p, Reject (Backpressure (length (pending p))))])
          (Suc (promises p))"
    using assms(1) unfolding invariant_def by (rule pipeline_inv_send_rejected)
  then show ?thesis using True by (simp add: send_rejected invariant_def)
next
  case False
  let ?r = "\<lparr>promise = promises p, opcode = opc, timestamp = now\<rparr>"
  note inv = assms(1)[unfolded invariant_def]
  have a: "Map_set (nextSequenceId (sequenceId p)) ?r (pending p) =
             pending p @ [(nextSequenceId (sequenceId p), ?r)]"
    using inv assms(2) by (rule pipeline_inv_send_accepted(1))
  have "pipeline_inv (nextSequenceId (sequenceId p))
          (pending p @ [(nextSequenceId (sequenceId p), ?r)])
          (write_callbacks p @ [(nextSequenceId (sequenceId p), promises p)])
          (invocations p) (Suc (promises p))"
    using inv assms(2) by (rule pipeline_inv_send_accepted(2)) simp
  then show ?thesis using False by (simp add: send_accepted invariant_def a)
qed

lemma invariant_write_callback:
  assumes "invariant p" and i: "i < length (write_callbacks p)"
  shows "invariant (write_callback err (write_callbacks p ! i)
                      (p\<lparr>write_callbacks := remove_nth i (write_callbacks p)\<rparr>))"
proof (cases err)
  case None
  have "pipeline_inv (sequenceId p) (pending p) (remove_nth i (write_callbacks p))
          (invocations p) (promises p)"
    using assms(1) unfolding invariant_def by (rule pipeline_inv_callback_done)
  then show ?thesis using None by (simp add: write_callback_def invariant_def)
next
  case (Some e)
  note inv = assms(1)[unfolded invariant_def]
  note d = pipeline_invD[OF inv]
  let ?w = "write_callbacks p" and ?pend = "pending p"
  obtain k pr where c: "?w ! i = (k, pr)" by (cases "?w ! i")
  have mem: "(k, pr) \<in> set ?w" using i c by (metis nth_mem)
  then have iff: "\<forall>x \<in> set ?pend. (fst x = k) = (promise (snd x) = pr)"
    using d(6) by force
  have goal: "pipeline_inv (sequenceId p) (Map_delete k ?pend) (remove_nth i ?w)
          (invocations p @ [(pr, Reject e)]) (promises p)"
  proof (cases "pr \<in> (promise \<circ> snd) ` set ?pend")
    case True
    then obtain x where x: "x \<in> set ?pend" "promise (snd x) = pr" by auto
    then have kx: "fst x = k" using iff by blast
    have one: "filter (\<lambda>y. fst y = k) ?pend = [x]"
      using filter_key_unique[OF d(2) x(1)] kx by simp
    have "pipeline_inv (sequenceId p) (filter (\<lambda>y. \<not> fst y = k) ?pend) ?w
            (invocations p @ map (\<lambda>y. (promise (snd y), Reject e)) (filter (\<lambda>y. fst y = k) ?pend))
            (promises p)"
      using inv by (rule pipeline_inv_settle) simp
    then have "pipeline_inv (sequenceId p) (Map_delete k ?pend) ?w
            (invocations p @ [(pr, Reject e)]) (promises p)"
      by (simp add: one x(2) Map_delete_filter)
    then show ?thesis by (rule pipeline_inv_callback_done)
  next
    case False
    have "\<forall>x \<in> set ?pend. fst x \<noteq> k"
    proof
      fix x assume x: "x \<in> set ?pend"
      show "fst x \<noteq> k"
      proof
        assume "fst x = k"
        then have "promise (snd x) = pr" using iff x by blast
        then show False using False x by force
      qed
    qed
    then have same: "Map_delete k ?pend = ?pend"
      by (simp add: Map_delete_filter)
    have "pipeline_inv (sequenceId p) ?pend (remove_nth i ?w)
            (invocations p @ [(snd (?w ! i), Reject e)]) (promises p)"
      using inv i False by (simp add: c pipeline_inv_late_reject[where w = ?w and i = i, simplified c, simplified])
    then show ?thesis by (simp add: same c)
  qed
  then show ?thesis using Some by (simp add: write_callback_def invariant_def c)
qed

lemma handleFrame_shape:
  assumes "handleFrame decode f p = Returned p'"
  shows "(\<exists>ws. p' = p\<lparr>warnings := ws\<rparr>) \<or>
         (\<exists>k r rest X. pending p = (k, r) # rest \<and>
            p' = p\<lparr>pending := Map_delete k (pending p),
                   invocations := invocations p @ [(promise r, X)]\<rparr>)"
  using assms unfolding handleFrame_def Let_def
  by (auto split: if_splits list.splits sum.splits prod.splits)

lemma invariant_handleFrame:
  assumes "invariant p" and "handleFrame decode f p = Returned p'"
  shows "invariant p'"
proof -
  note inv = assms(1)[unfolded invariant_def]
  note d = pipeline_invD[OF inv]
  from handleFrame_shape[OF assms(2)] show ?thesis
  proof (elim disjE exE conjE)
    fix ws assume "p' = p\<lparr>warnings := ws\<rparr>"
    then show ?thesis using assms(1) by (simp add: invariant_def)
  next
    fix k r rest X
    assume pend: "pending p = (k, r) # rest"
      and p': "p' = p\<lparr>pending := Map_delete k (pending p),
                       invocations := invocations p @ [(promise r, X)]\<rparr>"
    have "(k, r) \<in> set (pending p)" by (simp add: pend)
    then have one: "filter (\<lambda>y. fst y = k) (pending p) = [(k, r)]"
      using filter_key_unique[OF d(2), of "(k, r)"] by simp
    have "pipeline_inv (sequenceId p) (filter (\<lambda>y. \<not> fst y = k) (pending p)) (write_callbacks p)
            (invocations p @ map (\<lambda>y. (promise (snd y), X)) (filter (\<lambda>y. fst y = k) (pending p)))
            (promises p)"
      using inv by (rule pipeline_inv_settle) simp
    then show ?thesis
      by (simp add: p' invariant_def one Map_delete_filter)
  qed
qed


lemma pipeline_inv_settle_all:
  assumes "pipeline_inv s pend w calls n"
  shows "pipeline_inv s [] w (calls @ map (\<lambda>(k, r). (promise r, X)) pend) n"
proof -
  have "pipeline_inv s (filter (\<lambda>x. \<not> True) pend) w
          (calls @ map (\<lambda>x. (promise (snd x), X)) (filter (\<lambda>x. True) pend)) n"
    using assms by (rule pipeline_inv_settle) simp
  then show ?thesis by (simp add: case_prod_unfold)
qed

lemma invariant_rejectAllPending:
  assumes "invariant p"
  shows "invariant (rejectAllPending e p)"
  using pipeline_inv_settle_all[OF assms[unfolded invariant_def], of "Reject e"]
  by (simp add: rejectAllPending_eq invariant_def)

lemma invariant_destroy:
  assumes "invariant p"
  shows "invariant (destroy p)"
  using pipeline_inv_settle_all[OF assms[unfolded invariant_def], of "Reject PipelineDestroyed"]
  by (simp add: destroy_def Let_def rejectAll_loop_eq filter_own_keys invariant_def)

lemma sweep_loop_eq:
  "sweep_loop now es p =
     p\<lparr>invocations := invocations p @
          map (\<lambda>(k, r). (promise r, Reject (RequestTimeout (timeout (config p)))))
            (filter (\<lambda>(k, r). timeout (config p) < now - timestamp r) es),
       pending := filter (\<lambda>(k, r). k \<notin> fst ` set (filter (\<lambda>(k, r). timeout (config p) < now - timestamp r) es))
                    (pending p)\<rparr>"
proof (induction es arbitrary: p)
  case Nil
  then show ?case by simp
next
  case (Cons x es)
  obtain k r where x: "x = (k, r)" by (cases x)
  let ?E = "\<lambda>(k, r). timeout (config p) < now - timestamp r"
  show ?case
  proof (cases "timeout (config p) < now - timestamp r")
    case True
    have "filter (\<lambda>(k', r). k' \<notin> fst ` set (filter ?E es)) (Map_delete k (pending p)) =
          filter (\<lambda>(k', r). k' \<notin> fst ` set (filter ?E (x # es))) (pending p)"
      using True by (auto simp: Map_delete_def x intro: filter_cong)
    then show ?thesis using True by (simp add: Cons.IH x)
  next
    case False
    then show ?thesis by (simp add: Cons.IH x)
  qed
qed

lemma filter_not_own:
  assumes "distinct (map fst m)"
  shows "filter (\<lambda>x. fst x \<notin> fst ` set (filter Q m)) m = filter (\<lambda>x. \<not> Q x) m"
proof (rule filter_cong[OF refl])
  fix x assume x: "x \<in> set m"
  have "Q x" if "fst x \<in> fst ` set (filter Q m)"
  proof -
    from that obtain y where y: "y \<in> set m" "Q y" "fst y = fst x" by auto
    have "filter (\<lambda>z. fst z = fst x) m = [x]" using assms x by (rule filter_key_unique)
    moreover have "y \<in> set (filter (\<lambda>z. fst z = fst x) m)" using y by simp
    ultimately have "y = x" by simp
    then show ?thesis using y(2) by simp
  qed
  moreover have "fst x \<in> fst ` set (filter Q m)" if "Q x"
    using that x by force
  ultimately show "(fst x \<notin> fst ` set (filter Q m)) = (\<not> Q x)" by blast
qed

lemma invariant_timeout_check:
  assumes "invariant p"
  shows "invariant (timeout_check now p)"
proof -
  note inv = assms[unfolded invariant_def]
  note d = pipeline_invD[OF inv]
  let ?Q = "\<lambda>x. timeout (config p) < now - timestamp (snd x)"
  let ?X = "Reject (RequestTimeout (timeout (config p)))"
  have "pipeline_inv (sequenceId p) (filter (\<lambda>x. \<not> ?Q x) (pending p)) (write_callbacks p)
          (invocations p @ map (\<lambda>x. (promise (snd x), ?X)) (filter ?Q (pending p))) (promises p)"
    using inv by (rule pipeline_inv_settle) simp
  moreover have "filter (\<lambda>x. fst x \<notin> fst ` set (filter ?Q (pending p))) (pending p) =
                 filter (\<lambda>x. \<not> ?Q x) (pending p)"
    using d(2) by (rule filter_not_own)
  ultimately show ?thesis
    by (simp add: timeout_check_def sweep_loop_eq invariant_def case_prod_unfold)
qed

lemma invariant_socket_data:
  assumes "invariant p" and "socket_data decode chunk p = Returned p'"
  shows "invariant p'"
proof -
  obtain buf' q where loop: "push_loop (decoder_on_frame decode) decoder_on_error
        (maxFrameSize (decoder p)) (buffer (decoder p) @ chunk) p = Returned (buf', q)"
    and p': "p' = q\<lparr>decoder := (decoder p)\<lparr>buffer := buf'\<rparr>\<rparr>"
    using assms(2) unfolding socket_data_def push_def
    by (auto split: outcome.splits prod.splits)
  have "invariant q"
  proof (rule push_loop_preserves[where P = invariant, OF _ _ assms(1) loop])
    fix payload s s' assume "invariant s" and "decoder_on_frame decode payload s = Returned s'"
    then show "invariant s'"
      by (auto simp: decoder_on_frame_def split: if_splits intro: invariant_handleFrame)
  next
    fix e s s' assume "invariant s" and "decoder_on_error e s = Returned s'"
    then show "invariant s'"
      by (auto simp: decoder_on_error_def split: if_splits intro: invariant_rejectAllPending)
  qed
  then show ?thesis by (simp add: p' invariant_def)
qed


subsection \<open>Promises and calls only grow\<close>

lemma promises_socket_data:
  assumes "socket_data decode chunk p = Returned p'"
  shows "promises p' = promises p"
proof -
  obtain buf' q where loop: "push_loop (decoder_on_frame decode) decoder_on_error
        (maxFrameSize (decoder p)) (buffer (decoder p) @ chunk) p = Returned (buf', q)"
    and p': "p' = q\<lparr>decoder := (decoder p)\<lparr>buffer := buf'\<rparr>\<rparr>"
    using assms unfolding socket_data_def push_def
    by (auto split: outcome.splits prod.splits)
  have "promises q = promises p"
  proof (rule push_loop_preserves[where P = "\<lambda>s. promises s = promises p", OF _ _ refl loop])
    fix payload s s'
    assume a: "promises s = promises p" and b: "decoder_on_frame decode payload s = Returned s'"
    show "promises s' = promises p"
    proof (cases "decoder_listeners s")
      case True
      then have "handleFrame decode payload s = Returned s'"
        using b by (simp add: decoder_on_frame_def)
      from handleFrame_shape[OF this] show ?thesis using a by auto
    next
      case False
      then show ?thesis using a b by (simp add: decoder_on_frame_def)
    qed
  next
    fix e s s' assume "promises s = promises p" and "decoder_on_error e s = Returned s'"
    then show "promises s' = promises p"
      by (auto simp: decoder_on_error_def rejectAllPending_eq split: if_splits)
  qed
  then show ?thesis by (simp add: p')
qed

lemma promises_step:
  assumes "step decode ev p = Returned p'"
  shows "promises p \<le> promises p'"
proof (cases ev)
  case (Send frame opc now)
  then show ?thesis using assms by (auto simp: step_def send_def Let_def split: if_splits)
next
  case (WriteDone i err)
  then show ?thesis
    using assms by (auto simp: step_def write_callback_def split: if_splits option.splits prod.splits)
next
  case (SocketData chunk)
  then show ?thesis using assms promises_socket_data[of decode chunk p p'] by (simp add: step_def)
next
  case (SocketError e)
  then show ?thesis using assms by (auto simp: step_def socket_error_def rejectAllPending_eq)
next
  case SocketClose
  then show ?thesis using assms by (auto simp: step_def socket_close_def rejectAllPending_eq)
next
  case (TimerTick now)
  then show ?thesis
    using assms by (auto simp: step_def timeout_check_def sweep_loop_eq split: if_splits)
next
  case Destroy
  then show ?thesis
    using assms by (auto simp: step_def destroy_def Let_def rejectAll_loop_eq)
qed

lemma promises_run:
  assumes "run decode evs p = Returned p'"
  shows "promises p \<le> promises p'"
  using assms
proof (induction evs arbitrary: p)
  case Nil
  then show ?case by simp
next
  case (Cons ev evs)
  then obtain q where q: "step decode ev p = Returned q" and r: "run decode evs q = Returned p'"
    by (auto split: outcome.splits)
  have "promises p \<le> promises q" using q by (rule promises_step)
  moreover have "promises q \<le> promises p'" using r by (rule Cons.IH)
  ultimately show ?case by simp
qed

subsection \<open>Every run keeps the invariant\<close>

lemma invariant_step:
  assumes "invariant p" and "step decode ev p = Returned p'" and "promises p' < 2 ^ 32"
  shows "invariant p'"
proof (cases ev)
  case (Send frame opc now)
  then have p': "p' = snd (send frame opc now p)" using assms(2) by (simp add: step_def)
  have "promises p' = Suc (promises p)"
    unfolding p' by (simp add: send_def Let_def)
  then have "Suc (promises p) < 2 ^ 32" using assms(3) by simp
  with assms(1) show ?thesis unfolding p' by (rule invariant_send)
next
  case (WriteDone i err)
  then show ?thesis
    using assms(1,2) by (auto simp: step_def split: if_splits intro: invariant_write_callback)
next
  case (SocketData chunk)
  then show ?thesis using assms(1,2) by (auto simp: step_def intro: invariant_socket_data)
next
  case (SocketError e)
  then show ?thesis
    using assms(1,2) by (auto simp: step_def socket_error_def intro: invariant_rejectAllPending)
next
  case SocketClose
  then show ?thesis
    using assms(1,2) by (auto simp: step_def socket_close_def intro: invariant_rejectAllPending)
next
  case (TimerTick now)
  then show ?thesis
    using assms(1,2) by (auto simp: step_def split: if_splits intro: invariant_timeout_check)
next
  case Destroy
  then show ?thesis using assms(1,2) by (auto simp: step_def intro: invariant_destroy)
qed

lemma invariant_run:
  assumes "invariant p" and "run decode evs p = Returned p'" and "promises p' < 2 ^ 32"
  shows "invariant p'"
  using assms
proof (induction evs arbitrary: p)
  case Nil
  then show ?case by simp
next
  case (Cons ev evs)
  then obtain q where q: "step decode ev p = Returned q" and r: "run decode evs q = Returned p'"
    by (auto split: outcome.splits)
  have "promises q \<le> promises p'" using r by (rule promises_run)
  then have "promises q < 2 ^ 32" using Cons.prems(3) by simp
  with Cons.prems(1) q have "invariant q" by (rule invariant_step)
  then show ?case using r Cons.prems(3) by (rule Cons.IH)
qed


text \<open>The calls of continuations made so far are never undone.\<close>

lemma calls_socket_data:
  assumes "socket_data decode chunk p = Returned p'"
  shows "\<exists>xs. invocations p' = invocations p @ xs"
proof -
  obtain buf' q where loop: "push_loop (decoder_on_frame decode) decoder_on_error
        (maxFrameSize (decoder p)) (buffer (decoder p) @ chunk) p = Returned (buf', q)"
    and p': "p' = q\<lparr>decoder := (decoder p)\<lparr>buffer := buf'\<rparr>\<rparr>"
    using assms unfolding socket_data_def push_def
    by (auto split: outcome.splits prod.splits)
  have start: "\<exists>xs. invocations p = invocations p @ xs" by simp
  have "\<exists>xs. invocations q = invocations p @ xs"
  proof (rule push_loop_preserves[where P = "\<lambda>s. \<exists>xs. invocations s = invocations p @ xs",
        OF _ _ start loop])
    fix payload s s'
    assume a: "\<exists>xs. invocations s = invocations p @ xs"
      and b: "decoder_on_frame decode payload s = Returned s'"
    show "\<exists>xs. invocations s' = invocations p @ xs"
    proof (cases "decoder_listeners s")
      case True
      then have "handleFrame decode payload s = Returned s'"
        using b by (simp add: decoder_on_frame_def)
      from handleFrame_shape[OF this] show ?thesis using a by auto
    next
      case False
      then show ?thesis using a b by (simp add: decoder_on_frame_def)
    qed
  next
    fix e s s'
    assume "\<exists>xs. invocations s = invocations p @ xs" and "decoder_on_error e s = Returned s'"
    then show "\<exists>xs. invocations s' = invocations p @ xs"
      by (auto simp: decoder_on_error_def rejectAllPending_eq split: if_splits)
  qed
  then show ?thesis by (simp add: p')
qed

lemma calls_step:
  assumes "step decode ev p = Returned p'"
  shows "\<exists>xs. invocations p' = invocations p @ xs"
proof (cases ev)
  case (Send frame opc now)
  then show ?thesis using assms by (auto simp: step_def send_def Let_def split: if_splits)
next
  case (WriteDone i err)
  then show ?thesis
    using assms by (auto simp: step_def write_callback_def split: if_splits option.splits prod.splits)
next
  case (SocketData chunk)
  then show ?thesis using assms calls_socket_data[of decode chunk p p'] by (simp add: step_def)
next
  case (SocketError e)
  then show ?thesis using assms by (auto simp: step_def socket_error_def rejectAllPending_eq)
next
  case SocketClose
  then show ?thesis using assms by (auto simp: step_def socket_close_def rejectAllPending_eq)
next
  case (TimerTick now)
  then show ?thesis
    using assms by (auto simp: step_def timeout_check_def sweep_loop_eq split: if_splits)
next
  case Destroy
  then show ?thesis
    using assms by (auto simp: step_def destroy_def Let_def rejectAll_loop_eq)
qed

lemma calls_run:
  assumes "run decode evs p = Returned p'"
  shows "\<exists>xs. invocations p' = invocations p @ xs"
  using assms
proof (induction evs arbitrary: p)
  case Nil
  then show ?case by simp
next
  case (Cons ev evs)
  then obtain q where q: "step decode ev p = Returned q" and r: "run decode evs q = Returned p'"
    by (auto split: outcome.splits)
  obtain xs where "invocations q = invocations p @ xs" using calls_step[OF q] by blast
  moreover obtain ys where "invocations p' = invocations q @ ys" using Cons.IH[OF r] by blast
  ultimately show ?case by simp
qed

lemma run_append:
  assumes "run decode evs p = Returned q"
  shows "run decode (evs @ evs') p = run decode evs' q"
  using assms
proof (induction evs arbitrary: p)
  case Nil
  then show ?case by simp
next
  case (Cons ev evs)
  then show ?case by (auto split: outcome.splits)
qed

text \<open>
  Claim C3, as the code has it. Take any sequence of events (calls of \<open>send\<close> and
  \<open>destroy\<close>, write callbacks with or without an error, data, error and close events of
  the socket, timer ticks) on a fresh pipeline in which no call throws, ending in the
  state \<open>p\<close>, and any continuation of it ending in \<open>p'\<close>, with fewer than \<open>2 ^ 32\<close>
  calls of \<open>send\<close> in all (so that no sequence number is used twice). Then in \<open>p\<close>
  \<^item> no continuation of a pending entry has been called, and no two pending entries
    belong to the same promise;
  \<^item> every promise that \<open>send\<close> created and that is not pending has had a continuation
    called once or twice: the first call settles it, and a second call can only be
    the \<open>reject\<close> of its write callback, since a promise whose write callback is still
    outstanding has had at most one call;
  \<^item> a promise that is no longer pending is never pending again, so its entry is removed
    once; and calls of continuations are never undone.
\<close>

theorem settled_exactly_once:
  assumes "run decode evs (new_RequestPipeline cfg) = Returned p"
    and "run decode evs' p = Returned p'" and "promises p' < 2 ^ 32"
  shows "(\<forall>x \<in> set (pending p). invoked (promise (snd x)) (invocations p) = 0)
       \<and> distinct (map (promise \<circ> snd) (pending p))
       \<and> (\<forall>pr < promises p. pr \<notin> pending_promises p \<longrightarrow>
            1 \<le> invoked pr (invocations p) \<and> invoked pr (invocations p) \<le> 2)
       \<and> (\<forall>c \<in> set (write_callbacks p). invoked (snd c) (invocations p) \<le> 1)
       \<and> (\<forall>pr < promises p. pr \<notin> pending_promises p \<longrightarrow> pr \<notin> pending_promises p')
       \<and> (\<forall>pr. invoked pr (invocations p) \<le> invoked pr (invocations p'))"
proof -
  have le: "promises p \<le> promises p'" using assms(2) by (rule promises_run)
  then have small: "promises p < 2 ^ 32" using assms(3) by simp
  have ip: "invariant p"
    using invariant_new assms(1) small by (rule invariant_run)
  have ip': "invariant p'"
    using ip assms(2,3) by (rule invariant_run)
  note d = pipeline_invD[OF ip[unfolded invariant_def]]
  note d' = pipeline_invD[OF ip'[unfolded invariant_def]]
  obtain xs where xs: "invocations p' = invocations p @ xs"
    using calls_run[OF assms(2)] by blast
  have mono: "\<forall>pr. invoked pr (invocations p) \<le> invoked pr (invocations p')"
    by (simp add: xs)
  have never: "\<forall>pr < promises p. pr \<notin> pending_promises p \<longrightarrow> pr \<notin> pending_promises p'"
  proof (intro allI impI notI)
    fix pr assume pr: "pr < promises p" "pr \<notin> pending_promises p" "pr \<in> pending_promises p'"
    have "1 \<le> invoked pr (invocations p)"
      using d(7) pr(1,2) by (simp add: pending_promises_def)
    then have "1 \<le> invoked pr (invocations p')" using mono by (meson le_trans)
    moreover have "invoked pr (invocations p') = 0"
      using d'(5) pr(3) by (auto simp: pending_promises_def)
    ultimately show False by simp
  qed
  have w: "\<forall>c \<in> set (write_callbacks p). invoked (snd c) (invocations p) \<le> 1"
    using d(6) by blast
  have a: "\<forall>x \<in> set (pending p). invoked (promise (snd x)) (invocations p) = 0"
    using d(5) by blast
  have b: "\<forall>pr < promises p. pr \<notin> pending_promises p \<longrightarrow>
            1 \<le> invoked pr (invocations p) \<and> invoked pr (invocations p) \<le> 2"
    using d(7) by (simp add: pending_promises_def)
  from a d(3) b w never mono show ?thesis by (intro conjI)
qed


text \<open>The definitions that evaluate a run on concrete events.\<close>

lemmas run_defs =
  step_def send_def socket_data_def push_def decoder_on_frame_def decoder_on_error_def
  handleFrame_def write_callback_def remove_nth_def new_RequestPipeline_def DEFAULT_CONFIG_def
  new_FrameDecoder_def Map_set_def Map_delete_def Let_def nextSequenceId_def js_bitand_def
  push_loop.simps readUInt32LE_def RESPONSE_ERROR_def readU8_def

text \<open>
  A request is sent, its response frame arrives and resolves it, and then the socket
  reports that the write failed: the write callback calls \<open>reject\<close> of the same
  promise. Two continuations of one entry have been called.
\<close>

theorem write_error_after_frame_counterexample:
  "run ascii_text
     [Send [2, 0, 0, 0, 0x40, 1] 0x40 5,
      SocketData [2, 0, 0, 0, 0xf0, 7],
      WriteDone 0 (Some (TransportError ''EPIPE''))]
     (new_RequestPipeline DEFAULT_CONFIG) =
   Returned ((new_RequestPipeline DEFAULT_CONFIG)
     \<lparr>sequenceId := 1, written := [[2, 0, 0, 0, 0x40, 1]],
      invocations := [(0, Resolve [7]), (0, Reject (TransportError ''EPIPE''))],
      promises := 1\<rparr>)"
  by (simp add: run_defs)

text \<open>
  An error frame without a body: \<open>handleFrame\<close> deletes the oldest entry and then throws
  while reading the error code, inside the decoder's \<open>push\<close>. The entry is gone, no
  continuation has been called, and the frame is still in the decoder's buffer.
\<close>

lemma truncated_error_frame_throws:
  "run ascii_text
     [Send [2, 0, 0, 0, 0x40, 1] 0x40 5, SocketData [1, 0, 0, 0, 0xf1]]
     (new_RequestPipeline DEFAULT_CONFIG) =
   Thrown RangeError ((new_RequestPipeline DEFAULT_CONFIG)
     \<lparr>sequenceId := 1, written := [[2, 0, 0, 0, 0x40, 1]], write_callbacks := [(1, 0)],
      decoder := \<lparr>buffer = [1, 0, 0, 0, 0xf1], maxFrameSize = 16 * 1024 * 1024\<rparr>,
      promises := 1\<rparr>)"
  by (simp add: run_defs)

theorem settled_exactly_once_witness:
  "run ascii_text
     [Send [2, 0, 0, 0, 0x40, 1] 0x40 5,
      SocketData [2, 0, 0, 0, 0xf0, 7],
      WriteDone 0 (Some (TransportError ''EPIPE''))]
     (new_RequestPipeline DEFAULT_CONFIG) =
   Returned ((new_RequestPipeline DEFAULT_CONFIG)
     \<lparr>sequenceId := 1, written := [[2, 0, 0, 0, 0x40, 1]],
      invocations := [(0, Resolve [7]), (0, Reject (TransportError ''EPIPE''))],
      promises := 1\<rparr>)
   \<and> run ascii_text [Send [2, 0, 0, 0, 0x41, 1] 0x41 6]
       ((new_RequestPipeline DEFAULT_CONFIG)
         \<lparr>sequenceId := 1, written := [[2, 0, 0, 0, 0x40, 1]],
          invocations := [(0, Resolve [7]), (0, Reject (TransportError ''EPIPE''))],
          promises := 1\<rparr>) =
     Returned ((new_RequestPipeline DEFAULT_CONFIG)
       \<lparr>sequenceId := 2,
        pending := [(2, \<lparr>promise = 1, opcode = 0x41, timestamp = 6\<rparr>)],
        written := [[2, 0, 0, 0, 0x40, 1], [2, 0, 0, 0, 0x41, 1]],
        write_callbacks := [(2, 1)],
        invocations := [(0, Resolve [7]), (0, Reject (TransportError ''EPIPE''))],
        promises := 2\<rparr>)
   \<and> invoked 0 [(0, Resolve [7]), (0, Reject (TransportError ''EPIPE''))] = 2
   \<and> invoked 1 [(0, Resolve [7]), (0, Reject (TransportError ''EPIPE''))] = 0"
proof -
  let ?N = "new_RequestPipeline DEFAULT_CONFIG"
  let ?P = "?N\<lparr>sequenceId := 1, written := [[2, 0, 0, 0, 0x40, 1]],
      invocations := [(0, Resolve [7]), (0, Reject (TransportError ''EPIPE''))],
      promises := 1\<rparr>"
  let ?P' = "?N\<lparr>sequenceId := 2,
        pending := [(2, \<lparr>promise = 1, opcode = 0x41, timestamp = 6\<rparr>)],
        written := [[2, 0, 0, 0, 0x40, 1], [2, 0, 0, 0, 0x41, 1]],
        write_callbacks := [(2, 1)],
        invocations := [(0, Resolve [7]), (0, Reject (TransportError ''EPIPE''))],
        promises := 2\<rparr>"
  have e1: "run ascii_text
     [Send [2, 0, 0, 0, 0x40, 1] 0x40 5,
      SocketData [2, 0, 0, 0, 0xf0, 7],
      WriteDone 0 (Some (TransportError ''EPIPE''))] ?N = Returned ?P"
    by (simp add: run_defs)
  have e2: "run ascii_text [Send [2, 0, 0, 0, 0x41, 1] 0x41 6] ?P = Returned ?P'"
    by (simp add: run_defs)
  have e3: "promises ?P' < 2 ^ 32" by simp
  show ?thesis
    using settled_exactly_once[OF e1 e2 e3] e1 e2
    by (simp add: invoked_def)
qed

end
